theory Spec2Isabelle
  imports Main "HOL-Library.AList" "HOL-Library.Multiset" "HOL-Library.Signed_Division"
begin

section \<open>Types and values as the reflect package shows them\<close>

text \<open>
  The program inspects its producers through Go's reflect package. A \<^verbatim>\<open>reflect.Type\<close> is
  modelled by the datatype \<open>rtype\<close>. Types are compared with \<open>=\<close>, as Go compares
  \<^verbatim>\<open>reflect.Type\<close> values by identity.
  \<^item> \<open>Named n\<close> is a defined type that is neither a function type nor an interface
    type and has no method \<^verbatim>\<open>Error() string\<close>, neither itself nor its pointer type
    (the structs of the tests, \<^verbatim>\<open>int\<close>, \<^verbatim>\<open>string\<close>).
  \<^item> \<open>WithError n k rc\<close> is a defined type of kind \<open>k\<close> that declares
    \<^verbatim>\<open>Error() string\<close>, with a value receiver or a pointer receiver (for the kind
    \<open>InterfaceK\<close>: an interface that contains the method).
  \<^item> \<open>PtrTo\<close>, \<open>SliceOf\<close>, the empty interface and the interface \<^verbatim>\<open>error\<close>.
  \<^item> \<open>Func ins variadic outs\<close> is a function type with its ordered parameter types,
    whether it is variadic (then the last parameter type is a slice type) and its result
    types.
  Defined function types and the other composite types are not represented.
\<close>

datatype kind = BoolK | IntK | StringK | StructK | ArrayK | MapK | SliceK | ChanK | InterfaceK

datatype receiver = ByValue | ByPointer

datatype rtype =
    Named string
  | WithError string kind receiver
  | PtrTo rtype
  | SliceOf rtype
  | EmptyInterface
  | ErrorInterface
  | Func "rtype list" bool "rtype list"

text \<open>
  \<^verbatim>\<open>t.Implements(errorInterface)\<close>: the method set of the type contains
  \<^verbatim>\<open>Error() string\<close>. The method set of a pointer type \<^verbatim>\<open>*T\<close> contains the methods
  of \<^verbatim>\<open>T\<close> with either receiver, except when \<^verbatim>\<open>T\<close> is an interface type.
\<close>

fun Implements_error :: "rtype \<Rightarrow> bool" where
  "Implements_error ErrorInterface = True"
| "Implements_error (WithError n k rc) = (rc = ByValue \<or> k = InterfaceK)"
| "Implements_error (PtrTo (WithError n k rc)) = (k \<noteq> InterfaceK)"
| "Implements_error _ = False"

text \<open>
  The kinds on which \<^verbatim>\<open>reflect.Value.IsNil\<close> does not panic: chan, func, interface, map,
  pointer and slice. The kind of a \<open>Named\<close> type is not recorded; the program asks
  \<^verbatim>\<open>IsNil\<close> only of a value whose type implements \<^verbatim>\<open>error\<close>, which no \<open>Named\<close>
  type does.
\<close>

fun CanNil :: "rtype \<Rightarrow> bool" where
  "CanNil (PtrTo t) = True"
| "CanNil (SliceOf t) = True"
| "CanNil EmptyInterface = True"
| "CanNil ErrorInterface = True"
| "CanNil (Func ins variadic outs) = True"
| "CanNil (WithError n k rc) = (k = MapK \<or> k = SliceK \<or> k = ChanK \<or> k = InterfaceK)"
| "CanNil (Named n) = False"

text \<open>
  A \<^verbatim>\<open>reflect.Value\<close>: its type, whether it holds nil, and what \<^verbatim>\<open>Interface()\<close> gives
  back. \<^verbatim>\<open>IsNil\<close> panics on a value of a kind that cannot be nil; \<open>None\<close> is that
  panic.
\<close>

datatype 'a Value = Value (Type: rtype) (holds_nil: bool) (Interface: 'a)

definition IsNil :: "'a Value \<Rightarrow> bool option" where
  "IsNil v = (if CanNil (Type v) then Some (holds_nil v) else None)"

text \<open>
  What an \<^verbatim>\<open>interface{}\<close> holding a transformation looks like to reflect: the
  dynamic type (\<^verbatim>\<open>reflect.TypeOf\<close>) and the behaviour of \<^verbatim>\<open>reflect.ValueOf(f).Call\<close>.
  \<open>Call\<close> is any function from argument values to result values; reflect itself
  would only ever return results of the declared result types. A nil \<^verbatim>\<open>ResolverFunc\<close>,
  on which \<^verbatim>\<open>Validate\<close> panics, and a nil function value, on which \<^verbatim>\<open>Call\<close>
  panics, have no representation here.
\<close>

datatype 'a iface = Iface (TypeOf: rtype) (Call: "'a Value list \<Rightarrow> 'a Value list")

record 'a Resolver =
  ResolverFunc :: "'a iface"

definition rType :: "'a Resolver \<Rightarrow> rtype" where
  "rType r = TypeOf (ResolverFunc r)"

fun is_Func :: "rtype \<Rightarrow> bool" where
  "is_Func (Func ins variadic outs) = True"
| "is_Func _ = False"

text \<open>
  \<^verbatim>\<open>NumIn\<close>, \<^verbatim>\<open>In\<close>, \<^verbatim>\<open>NumOut\<close> and \<^verbatim>\<open>Out\<close> panic in Go when the type
  is not a function type. The functions below are total and give the empty list there; the
  source reaches them unguarded only for resolvers stored in a registry, and the theorems
  about registries assume that every stored resolver passed \<open>Validate\<close>
  (see \<open>all_valid\<close>), which \<open>Add\<close> guarantees.
\<close>

fun type_ins :: "rtype \<Rightarrow> rtype list" where
  "type_ins (Func ins variadic outs) = ins"
| "type_ins _ = []"

fun type_outs :: "rtype \<Rightarrow> rtype list" where
  "type_outs (Func ins variadic outs) = outs"
| "type_outs _ = []"

definition NumIn :: "rtype \<Rightarrow> nat" where
  "NumIn t = length (type_ins t)"

definition NumOut :: "rtype \<Rightarrow> nat" where
  "NumOut t = length (type_outs t)"

text \<open>
  \<^verbatim>\<open>Call\<close> of reflect on arguments whose number and types equal the parameters': for a
  function that is not variadic every argument is assignable and the call goes through. For
  a variadic function \<^verbatim>\<open>Call\<close> takes the last argument as one element of the variadic
  slice, and panics unless its type (the slice type) is assignable to the element type,
  which holds only for the empty interface.
\<close>

fun Call_panics :: "rtype \<Rightarrow> bool" where
  "Call_panics (Func ins True outs) =
     (case rev ins of SliceOf EmptyInterface # ts \<Rightarrow> False | _ \<Rightarrow> True)"
| "Call_panics _ = False"

section \<open>Resolver\<close>

text \<open>\<^verbatim>\<open>InputTypes\<close> collects \<^verbatim>\<open>rType.In(i)\<close> for \<open>i\<close> from 0 to \<^verbatim>\<open>NumIn() - 1\<close>.\<close>

definition InputTypes :: "'a Resolver \<Rightarrow> rtype list" where
  "InputTypes r = map (\<lambda>i. type_ins (rType r) ! i) [0..<NumIn (rType r)]"

text \<open>
  \<^verbatim>\<open>OutputType\<close> is \<^verbatim>\<open>rType.Out(0)\<close>, which panics on a function type without
  results; \<open>None\<close> is that panic.
\<close>

definition OutputType_opt :: "'a Resolver \<Rightarrow> rtype option" where
  "OutputType_opt r = (case type_outs (rType r) of [] \<Rightarrow> None | t # ts \<Rightarrow> Some t)"

definition OutputType :: "'a Resolver \<Rightarrow> rtype" where
  "OutputType r = (case OutputType_opt r of Some t \<Rightarrow> t | None \<Rightarrow> Named [])"

datatype validate_error =
    NotAFunction
  | NoInputs
  | DuplicateArgumentTypes
  | WrongOutputCount
  | SecondOutputNotError

text \<open>
  The loop of \<^verbatim>\<open>Validate\<close> that fills a set of the argument types seen so far and
  stops at the first one seen twice.
\<close>

fun seen_twice :: "rtype list \<Rightarrow> rtype list \<Rightarrow> bool" where
  "seen_twice inputTypes [] = False"
| "seen_twice inputTypes (v # vs) =
     (if v \<in> set inputTypes then True else seen_twice (v # inputTypes) vs)"

definition Validate :: "'a Resolver \<Rightarrow> validate_error option" where
  "Validate r =
     (if \<not> is_Func (rType r) then Some NotAFunction
      else if NumIn (rType r) = 0 then Some NoInputs
      else if seen_twice [] (InputTypes r) then Some DuplicateArgumentTypes
      else if NumOut (rType r) \<noteq> 2 then Some WrongOutputCount
      else if \<not> Implements_error (type_outs (rType r) ! 1) then Some SecondOutputNotError
      else None)"

text \<open>
  The errors of \<^verbatim>\<open>Resolve\<close>, which the source builds with \<^verbatim>\<open>fmt.Errorf\<close>, in the
  order of the source; \<open>ProducerFailure\<close> is the error value the transformation
  itself returned.
\<close>

datatype 'a resolve_error =
    ArityMismatch
  | TypeMismatch
  | OutputCountMismatch
  | OutputTypeMismatch
  | SecondOutputNotErrorAfterEvaluation
  | ErrorAssertionFailed
  | ProducerFailure 'a

text \<open>
  \<^verbatim>\<open>Resolve\<close> returns a pair: a pointer to the produced value (or nil) and an error
  (or nil). \<open>Panic\<close> stands for the panics of reflect: on a resolver that is not a
  function or has no result type, in \<^verbatim>\<open>Call\<close> on a variadic function, and in
  \<^verbatim>\<open>IsNil\<close> on a second result of a kind that cannot be nil.
\<close>

datatype 'a resolve_result =
    Panic
  | Return "'a Value option" "'a resolve_error option"

definition Resolve :: "'a Resolver \<Rightarrow> 'a Value list \<Rightarrow> 'a resolve_result" where
  "Resolve r inputs =
     (if \<not> is_Func (rType r) then Panic
      else if NumIn (rType r) \<noteq> length inputs then Return None (Some ArityMismatch)
      else if list_ex (\<lambda>i. type_ins (rType r) ! i \<noteq> Type (inputs ! i)) [0..<NumIn (rType r)]
        then Return None (Some TypeMismatch)
      else if Call_panics (rType r) then Panic
      else
        let outputValues = Call (ResolverFunc r) inputs in
        if length outputValues \<noteq> 2 then Return None (Some OutputCountMismatch)
        else
          (case OutputType_opt r of
             None \<Rightarrow> Panic
           | Some outputType \<Rightarrow>
               if Type (outputValues ! 0) \<noteq> outputType then Return None (Some OutputTypeMismatch)
               else
                 let ov = outputValues ! 0 in
                 if \<not> Implements_error (Type (outputValues ! 1))
                   then Return None (Some SecondOutputNotErrorAfterEvaluation)
                 else
                   (case IsNil (outputValues ! 1) of
                      None \<Rightarrow> Panic
                    | Some True \<Rightarrow> Return (Some ov) None
                    | Some False \<Rightarrow>
                        let ok = Implements_error (Type (outputValues ! 1)) in
                        if \<not> ok then Return None (Some ErrorAssertionFailed)
                        else Return (Some ov) (Some (ProducerFailure (Interface (outputValues ! 1)))))))"

text \<open>
  \<^verbatim>\<open>MissingInputs\<close>: the wanted types for which the inner loop over \<open>have\<close> finds no
  equal type, in the order of \<open>InputTypes\<close>.
\<close>

definition MissingInputs :: "'a Resolver \<Rightarrow> rtype list \<Rightarrow> rtype list" where
  "MissingInputs r have =
     filter (\<lambda>wantedType. \<not> list_ex (\<lambda>t. t = wantedType) have) (InputTypes r)"

section \<open>ProductionMap\<close>

text \<open>
  \<^verbatim>\<open>map[reflect.Type][]Resolver\<close> as an association list. \<open>bucket pm t\<close> is the Go
  expression \<^verbatim>\<open>pm[t]\<close>: the nil slice when the key is absent. Go leaves the order of
  \<^verbatim>\<open>range pm\<close> unspecified, and it may differ from one \<^verbatim>\<open>range\<close> statement to the
  next. \<^verbatim>\<open>IsDAG\<close>, which only asks whether some slot starts a cycle, ranges in the order
  of the list; \<^verbatim>\<open>List\<close>, whose result depends on the order, takes it as an argument.
\<close>

type_synonym 'a ProductionMap = "(rtype \<times> 'a Resolver list) list"

definition bucket :: "'a ProductionMap \<Rightarrow> rtype \<Rightarrow> 'a Resolver list" where
  "bucket pm t = (case map_of pm t of None \<Rightarrow> [] | Some rs \<Rightarrow> rs)"

text \<open>
  A \<^verbatim>\<open>*Resolver\<close> obtained as \<^verbatim>\<open>&pm[t][i]\<close>: the address (key and index of the slot)
  together with the resolver stored there. The visited-set of the cycle check is keyed by
  the address.
\<close>

type_synonym 'a ResolverPtr = "(rtype \<times> nat) \<times> 'a Resolver"

definition slots :: "'a ProductionMap \<Rightarrow> rtype \<Rightarrow> 'a ResolverPtr list" where
  "slots pm t = map (\<lambda>i. ((t, i), bucket pm t ! i)) [0..<length (bucket pm t)]"

definition addresses :: "'a ProductionMap \<Rightarrow> (rtype \<times> nat) set" where
  "addresses pm = (\<Union>(t, rs) \<in> set pm. {t} \<times> {..<length (bucket pm t)})"

function HasCycle :: "'a ProductionMap \<Rightarrow> 'a ResolverPtr \<Rightarrow> (rtype \<times> nat) list \<Rightarrow> bool" where
  "HasCycle pm r visited =
     (if fst r \<in> set visited then True
      else
        list_ex (\<lambda>inputType.
          list_ex (\<lambda>r'. HasCycle pm r' (fst r # visited)) (slots pm inputType))
          (InputTypes (snd r)))"
  by pat_completeness auto

termination
proof (relation "measure (\<lambda>(pm, r, visited).
         2 * card (addresses pm - set visited) + (if fst r \<in> addresses pm then 0 else 1))",
       goal_cases)
  case 1
  show ?case by simp
next
  case (2 pm r visited inputType r')
  have fin: "finite (addresses pm)" by (auto simp: addresses_def)
  have r': "fst r' \<in> addresses pm"
  proof -
    from 2 obtain i where i: "i < length (bucket pm inputType)" and p: "fst r' = (inputType, i)"
      by (auto simp: slots_def)
    from i obtain rs where "map_of pm inputType = Some rs"
      by (auto simp: bucket_def split: option.splits)
    then have "(inputType, rs) \<in> set pm" by (rule map_of_SomeD)
    with i p show ?thesis by (force simp: addresses_def)
  qed
  show ?case
  proof (cases "fst r \<in> addresses pm")
    case True
    with 2 have "fst r \<in> addresses pm - set visited" by simp
    then have "card (addresses pm - set (fst r # visited)) < card (addresses pm - set visited)"
      by (intro psubset_card_mono) (auto simp: fin)
    with r' True show ?thesis by simp
  next
    case False
    then have "addresses pm - set (fst r # visited) = addresses pm - set visited" by auto
    with r' False show ?thesis by simp
  qed
qed

declare HasCycle.simps [simp del]

definition IsDAG :: "'a ProductionMap \<Rightarrow> bool" where
  "IsDAG pm =
     (\<not> list_ex (\<lambda>t. list_ex (\<lambda>r. HasCycle pm r []) (slots pm t)) (map fst pm))"

datatype add_error =
    InvalidProducer validate_error
  | DuplicateProducer
  | CyclicDependency

text \<open>
  \<^verbatim>\<open>Add\<close> mutates the map and returns an error or nil; the model returns the map after
  the call together with the error.
\<close>

definition Add :: "'a ProductionMap \<Rightarrow> 'a Resolver \<Rightarrow> 'a ProductionMap \<times> add_error option" where
  "Add pm r =
     (case Validate r of
        Some err \<Rightarrow> (pm, Some (InvalidProducer err))
      | None \<Rightarrow>
          let outputType = OutputType r in
          if list_ex (\<lambda>resolver. rType r = rType resolver) (bucket pm outputType)
            then (pm, Some DuplicateProducer)
          else
            let pm1 = AList.update outputType (bucket pm outputType @ [r]) pm in
            if \<not> IsDAG pm1 then
              let pm2 = AList.update outputType (butlast (bucket pm1 outputType)) pm1;
                  pm3 = (if length (bucket pm2 outputType) = 0
                         then AList.delete outputType pm2 else pm2)
              in (pm3, Some CyclicDependency)
            else (pm1, None))"

text \<open>
  \<^verbatim>\<open>List\<close>: every \<^verbatim>\<open>&pm[i][j]\<close>, key by key; the callers only read the resolvers.
  \<open>keys\<close> is the order in which the \<^verbatim>\<open>range pm\<close> of this call yields the keys of the
  map, some arrangement of them. \<open>producers\<close> is the listing in the order of the
  association list.
\<close>

definition List :: "rtype list \<Rightarrow> 'a ProductionMap \<Rightarrow> 'a Resolver list" where
  "List keys pm = concat (map (\<lambda>i. map snd (slots pm i)) keys)"

definition producers :: "'a ProductionMap \<Rightarrow> 'a Resolver list" where
  "producers pm = List (map fst pm) pm"

section \<open>PossibilityNode\<close>

datatype 'a PossibilityNode =
  PossibilityNode (Resolver: "'a Resolver option") (Inputs: "rtype list")
    (NextSteps: "'a PossibilityNode list")

fun Count :: "'a PossibilityNode \<Rightarrow> int" where
  "Count (PossibilityNode r ins next) = foldl (\<lambda>count node. count + Count node) 1 next"

datatype prune_error = TargetUnreachable

text \<open>
  \<^verbatim>\<open>PruneFor\<close> works in place; the model returns the node after the call and the error.
  A child that reports an error has been cut down as well, but is dropped by its parent.
\<close>

fun PruneFor :: "'a PossibilityNode \<Rightarrow> rtype \<Rightarrow> 'a PossibilityNode \<times> prune_error option" where
  "PruneFor (PossibilityNode res ins next) output =
     (if (case res of None \<Rightarrow> False | Some r \<Rightarrow> OutputType r = output)
        then (PossibilityNode res ins [], None)
      else
        let pruned = map (\<lambda>n. PruneFor n output) next;
            keepIdx = filter (\<lambda>i. snd (pruned ! i) = None) [0..<length next]
        in if length keepIdx = 0
             then (PossibilityNode res ins [], Some TargetUnreachable)
           else (PossibilityNode res ins (map (\<lambda>i. fst (pruned ! i)) keepIdx), None))"

definition outputs :: "'a ProductionMap \<Rightarrow> rtype set" where
  "outputs pm = OutputType ` set (producers pm)"

text \<open>
  Every call of \<^verbatim>\<open>BuildPossibilityTree\<close> calls \<^verbatim>\<open>List\<close> anew, so the order of the
  producers may differ from node to node and from run to run. A \<open>schedule\<close> fixes one
  run: it gives, for every call, the order in which the \<^verbatim>\<open>range\<close> of its \<^verbatim>\<open>List\<close>
  yields the keys. A call is named by its \<open>path\<close>: the positions, in the lists of the
  calls above it, of the producers applied on the way down from the root (the empty path
  for the call on the root). The statements about the tree are made for every schedule,
  those about which producers are applied for every schedule that yields the keys of the
  map at each call (\<open>ranges_over\<close>).
\<close>

type_synonym schedule = "nat list \<Rightarrow> rtype list"

function (domintros) BuildPossibilityTree ::
  "schedule \<Rightarrow> nat list \<Rightarrow> 'a ProductionMap \<Rightarrow> 'a PossibilityNode \<Rightarrow> rtype list \<Rightarrow>
   'a PossibilityNode" where
  "BuildPossibilityTree ord path pm root inputs =
     foldl (\<lambda>root (j, r).
        if list_ex (\<lambda>input. OutputType r = input) inputs then root
        else
          let mi = MissingInputs r inputs in
          if length mi > 0 then root
          else
            let inputsPersist = inputs;
                pn = PossibilityNode (Some r) inputsPersist [];
                inputsNext = inputs @ [OutputType r];
                pn' = BuildPossibilityTree ord (path @ [j]) pm pn inputsNext
            in PossibilityNode (Resolver root) (Inputs root) (NextSteps root @ [pn']))
       root (enumerate 0 (List (ord path) pm))"
  by pat_completeness auto

termination
proof (relation "measure (\<lambda>(ord, path, pm, root, inputs). card (outputs pm - set inputs))",
    goal_cases)
  case 1
  show ?case by simp
next
  case (2 ord path pm root inputs a jr j r mi inputsPersist pn inputsNext)
  have res: "map snd (slots pm t) = bucket pm t" for t
    by (simp add: slots_def comp_def map_nth)
  from 2 have "r \<in> set (List (ord path) pm)" by (auto simp: in_set_enumerate_eq)
  then obtain t where b: "r \<in> set (bucket pm t)" by (auto simp: List_def res)
  have "map_of pm t \<noteq> None"
  proof
    assume "map_of pm t = None"
    with b show False by (simp add: bucket_def)
  qed
  then obtain rs where "map_of pm t = Some rs" by blast
  then have "(t, rs) \<in> set pm" by (rule map_of_SomeD)
  then have "t \<in> fst ` set pm" by force
  with b have "r \<in> set (producers pm)" by (auto simp: producers_def List_def res)
  with 2 have "OutputType r \<in> outputs pm - set inputs"
    by (auto simp: outputs_def list_ex_iff)
  then have "card (outputs pm - set (inputs @ [OutputType r])) < card (outputs pm - set inputs)"
    by (intro psubset_card_mono) (auto simp: outputs_def)
  with 2 show ?case by simp
qed

declare BuildPossibilityTree.simps [simp del]

definition PossibilityTree ::
  "schedule \<Rightarrow> 'a ProductionMap \<Rightarrow> rtype list \<Rightarrow> 'a PossibilityNode" where
  "PossibilityTree ord pm inputs =
     BuildPossibilityTree ord [] pm (PossibilityNode None [] []) inputs"

section \<open>Predicates and measures of the statements\<close>

text \<open>
  The statements about the program are phrased with the predicates and measures below:
  validity of the stored producers, eligibility of a producer for a list of available
  types, the nodes of a tree, the shape of a registry as \<^verbatim>\<open>Add\<close> builds it, the graph of
  input and output types, and the depth of a tree.
\<close>

text \<open>
  Every stored producer passed \<^verbatim>\<open>Validate\<close>; and the two tests of the tree builder on
  a producer, for available types \<open>S\<close>: its output type is not among them and none of
  its inputs is missing.
\<close>

definition all_valid :: "'a ProductionMap \<Rightarrow> bool" where
  "all_valid pm = list_all (\<lambda>r. Validate r = None) (producers pm)"

definition eligible :: "rtype list \<Rightarrow> 'a Resolver \<Rightarrow> bool" where
  "eligible S r = (OutputType r \<notin> set S \<and> set (InputTypes r) \<subseteq> set S)"

text \<open>
  A schedule for a registry yields, at every call, each key of the map once; the schedule
  \<open>in_map_order\<close> yields them in the order of the association list at every call.
\<close>

definition ranges_over :: "'a ProductionMap \<Rightarrow> schedule \<Rightarrow> bool" where
  "ranges_over pm ord \<longleftrightarrow> (\<forall>path. mset (ord path) = mset (map fst pm))"

definition in_map_order :: "'a ProductionMap \<Rightarrow> schedule" where
  "in_map_order pm = (\<lambda>path. map fst pm)"

text \<open>
  All nodes of a tree, the root first; whether a node applies a producer of the target
  type (the test at the head of \<^verbatim>\<open>PruneFor\<close>); the types available at a node, read off
  its fields (the starting types at the root, whose \<^verbatim>\<open>Resolver\<close> is nil); and a node whose
  children are exactly the eligible producers, each storing \<open>S\<close>.
\<close>

fun nodes :: "'a PossibilityNode \<Rightarrow> 'a PossibilityNode list" where
  "nodes (PossibilityNode res ins next) =
     PossibilityNode res ins next # concat (map nodes next)"

definition applies :: "rtype \<Rightarrow> 'a PossibilityNode \<Rightarrow> bool" where
  "applies target n = (case Resolver n of None \<Rightarrow> False | Some r \<Rightarrow> OutputType r = target)"

definition available :: "rtype list \<Rightarrow> 'a PossibilityNode \<Rightarrow> rtype list" where
  "available start n = (case Resolver n of None \<Rightarrow> start | Some r \<Rightarrow> Inputs n @ [OutputType r])"

definition expands :: "'a ProductionMap \<Rightarrow> rtype list \<Rightarrow> 'a PossibilityNode \<Rightarrow> bool" where
  "expands pm S n \<longleftrightarrow>
     mset (map Resolver (NextSteps n)) = mset (map Some (filter (eligible S) (producers pm))) \<and>
     list_all (\<lambda>c. Inputs c = S) (NextSteps n)"

text \<open>
  The map after \<^verbatim>\<open>pm[outputType] = append(pm[outputType], r)\<close>; the duplicate test of
  \<^verbatim>\<open>Add\<close>; and the shape of a registry as \<^verbatim>\<open>Add\<close> builds it from the empty map: keys
  are unique (a Go map), no bucket is empty, and every producer is valid and stored under
  its own output type. \<open>registry_inv\<close> adds the acyclicity that \<^verbatim>\<open>Add\<close> enforces.
\<close>

definition inserted :: "'a ProductionMap \<Rightarrow> 'a Resolver \<Rightarrow> 'a ProductionMap" where
  "inserted pm r = AList.update (OutputType r) (bucket pm (OutputType r) @ [r]) pm"

definition no_empty_bucket :: "'a ProductionMap \<Rightarrow> bool" where
  "no_empty_bucket pm = list_all (\<lambda>(t, rs). rs \<noteq> []) pm"

definition same_signature :: "'a ProductionMap \<Rightarrow> 'a Resolver \<Rightarrow> bool" where
  "same_signature pm r = list_ex (\<lambda>resolver. rType r = rType resolver) (bucket pm (OutputType r))"

definition well_keyed :: "'a ProductionMap \<Rightarrow> bool" where
  "well_keyed pm \<longleftrightarrow>
     distinct (map fst pm) \<and>
     list_all (\<lambda>(t, rs). rs \<noteq> [] \<and> list_all (\<lambda>r. Validate r = None \<and> OutputType r = t) rs) pm"

definition registry_inv :: "'a ProductionMap \<Rightarrow> bool" where
  "registry_inv pm \<longleftrightarrow> well_keyed pm \<and> IsDAG pm"

text \<open>
  The graph of the specification: an edge from each input type of each registered producer
  to its output type. \<open>walk\<close> is the graph that \<^verbatim>\<open>HasCycle\<close> follows: from a slot of
  the registry to every slot stored under one of its producer's input types.
\<close>

definition edge_list :: "'a ProductionMap \<Rightarrow> (rtype \<times> rtype) list" where
  "edge_list pm = concat (map (\<lambda>r. map (\<lambda>i. (i, OutputType r)) (InputTypes r)) (producers pm))"

definition edges :: "'a ProductionMap \<Rightarrow> (rtype \<times> rtype) set" where
  "edges pm = set (edge_list pm)"

definition is_slot :: "'a ProductionMap \<Rightarrow> 'a ResolverPtr \<Rightarrow> bool" where
  "is_slot pm p \<longleftrightarrow> p \<in> set (slots pm (fst (fst p)))"

definition walk :: "'a ProductionMap \<Rightarrow> ('a ResolverPtr \<times> 'a ResolverPtr) set" where
  "walk pm = {(p, q). is_slot pm p \<and> (\<exists>x \<in> set (InputTypes (snd p)). q \<in> set (slots pm x))}"

definition key :: "'a ResolverPtr \<Rightarrow> rtype" where
  "key p = fst (fst p)"

text \<open>
  The tests register producers one after another and stop at the first rejection;
  \<open>AddAll\<close> is that sequence of calls of \<^verbatim>\<open>Add\<close>.
\<close>

fun AddAll :: "'a ProductionMap \<Rightarrow> 'a Resolver list \<Rightarrow> 'a ProductionMap \<times> add_error option" where
  "AddAll pm [] = (pm, None)"
| "AddAll pm (r # rs) =
     (case Add pm r of
        (pm', None) \<Rightarrow> AddAll pm' rs
      | (pm', Some err) \<Rightarrow> (pm', Some err))"

text \<open>
  The length of the longest chain of producer applications below a node; the number of
  distinct output types of a registry; and the input types of a registry that no producer
  yields.
\<close>

fun Depth :: "'a PossibilityNode \<Rightarrow> nat" where
  "Depth (PossibilityNode r ins next) = foldl (\<lambda>d n. max d (Suc (Depth n))) 0 next"

definition raw_inputs :: "'a ProductionMap \<Rightarrow> rtype list" where
  "raw_inputs pm =
     filter (\<lambda>t. \<not> list_ex (\<lambda>r. OutputType r = t) (producers pm)) (concat (map InputTypes (producers pm)))"

definition output_count :: "'a ProductionMap \<Rightarrow> nat" where
  "output_count pm = length (remdups (map OutputType (producers pm)))"

section \<open>The Boulder and Tree scenario of the test suite\<close>

definition Boulder :: rtype where "Boulder = Named ''Boulder''"

definition Tree :: rtype where "Tree = Named ''Tree''"

definition Stone :: rtype where "Stone = Named ''Stone''"

definition Stick :: rtype where "Stick = Named ''Stick''"

definition Axe :: rtype where "Axe = Named ''Axe''"

definition Hammer :: rtype where "Hammer = Named ''Hammer''"

definition nilError :: "int list Value" where
  "nilError = Value ErrorInterface True []"

definition chiselStone :: "int list Resolver" where
  "chiselStone = \<lparr>ResolverFunc = Iface (Func [Boulder] False [Stone, ErrorInterface])
     (\<lambda>inputs. case inputs of
        [Value t n [weight]] \<Rightarrow> [Value Stone False [weight sdiv 10], nilError]
      | _ \<Rightarrow> [])\<rparr>"

definition pickupStick :: "int list Resolver" where
  "pickupStick = \<lparr>ResolverFunc = Iface (Func [Tree] False [Stick, ErrorInterface])
     (\<lambda>inputs. case inputs of
        [Value t n [height]] \<Rightarrow> [Value Stick False [height sdiv 10], nilError]
      | _ \<Rightarrow> [])\<rparr>"

definition assembleAxe :: "int list Resolver" where
  "assembleAxe = \<lparr>ResolverFunc = Iface (Func [Stick, Stone] False [Axe, ErrorInterface])
     (\<lambda>inputs. case inputs of
        [Value t n [height], Value t' n' [weight]] \<Rightarrow> [Value Axe False [weight, height], nilError]
      | _ \<Rightarrow> [])\<rparr>"

definition assembleHammer :: "int list Resolver" where
  "assembleHammer = \<lparr>ResolverFunc = Iface (Func [Stone, Stick] False [Hammer, ErrorInterface])
     (\<lambda>inputs. case inputs of
        [Value t n [weight], Value t' n' [height]] \<Rightarrow> [Value Hammer False [weight, height], nilError]
      | _ \<Rightarrow> [])\<rparr>"

definition productions1 :: "int list ProductionMap" where
  "productions1 = [(Stone, [chiselStone])]"

definition productions2 :: "int list ProductionMap" where
  "productions2 = [(Stone, [chiselStone]), (Stick, [pickupStick])]"

definition productions3 :: "int list ProductionMap" where
  "productions3 = [(Stone, [chiselStone]), (Stick, [pickupStick]), (Axe, [assembleAxe])]"

definition productions4 :: "int list ProductionMap" where
  "productions4 = [(Stone, [chiselStone]), (Stick, [pickupStick]), (Axe, [assembleAxe]),
     (Hammer, [assembleHammer])]"

definition grindStone :: "int list Resolver" where
  "grindStone = \<lparr>ResolverFunc = Iface (Func [Boulder] False [Stone, ErrorInterface])
     (\<lambda>inputs. case inputs of
        [Value t n [weight]] \<Rightarrow> [Value Stone False [weight sdiv 2], nilError]
      | _ \<Rightarrow> [])\<rparr>"

definition findStone :: "int list Resolver" where
  "findStone = \<lparr>ResolverFunc = Iface (Func [Tree] False [Stone, ErrorInterface])
     (\<lambda>inputs. case inputs of
        [Value t n [height]] \<Rightarrow> [Value Stone False [1], nilError]
      | _ \<Rightarrow> [])\<rparr>"

definition userToUser :: "int list Resolver" where
  "userToUser = \<lparr>ResolverFunc =
     Iface (Func [PtrTo (Named ''User'')] False [PtrTo (Named ''User''), ErrorInterface])
       (\<lambda>inputs. [Value (PtrTo (Named ''User'')) False [], nilError])\<rparr>"

definition diamond :: "int list ProductionMap" where
  "diamond =
     [(Named ''A'', [\<lparr>ResolverFunc = Iface (Func [Named ''X''] False [Named ''A'', ErrorInterface]) (\<lambda>inputs. [])\<rparr>]),
      (Named ''B'', [\<lparr>ResolverFunc = Iface (Func [Named ''A''] False [Named ''B'', ErrorInterface]) (\<lambda>inputs. [])\<rparr>]),
      (Named ''C'', [\<lparr>ResolverFunc = Iface (Func [Named ''A''] False [Named ''C'', ErrorInterface]) (\<lambda>inputs. [])\<rparr>]),
      (Named ''D'', [\<lparr>ResolverFunc =
         Iface (Func [Named ''B'', Named ''C''] False [Named ''D'', ErrorInterface]) (\<lambda>inputs. [])\<rparr>])]"

definition productions2' :: "int list ProductionMap" where
  "productions2' = [(Stick, [pickupStick]), (Stone, [chiselStone])]"

definition brokenChisel :: "int list Resolver" where
  "brokenChisel = \<lparr>ResolverFunc = Iface (Func [Boulder] False [Stone, ErrorInterface])
     (\<lambda>inputs. [Value Stone False [0], Value ErrorInterface False [13]])\<rparr>"

text \<open>
  Producers whose second result is not of the interface type \<^verbatim>\<open>error\<close> but of a type
  that implements it: \<^verbatim>\<open>type codeErr int\<close> with the method on the value receiver, and
  \<^verbatim>\<open>*MyErr\<close> for a struct \<^verbatim>\<open>MyErr\<close> with the method on the pointer receiver. Both
  transformations fail: the first returns \<^verbatim>\<open>codeErr(13)\<close>, the second a pointer that is
  not nil. The last producer is variadic, \<^verbatim>\<open>func(Boulder, ...Stick) (Stone, error)\<close>.
\<close>

definition codeErr :: rtype where "codeErr = WithError ''codeErr'' IntK ByValue"

definition MyErrPtr :: rtype where "MyErrPtr = PtrTo (WithError ''MyErr'' StructK ByPointer)"

definition codeChisel :: "int list Resolver" where
  "codeChisel = \<lparr>ResolverFunc = Iface (Func [Boulder] False [Stone, codeErr])
     (\<lambda>inputs. [Value Stone False [0], Value codeErr False [13]])\<rparr>"

definition pointerChisel :: "int list Resolver" where
  "pointerChisel = \<lparr>ResolverFunc = Iface (Func [Boulder] False [Stone, MyErrPtr])
     (\<lambda>inputs. [Value Stone False [0], Value MyErrPtr False [13]])\<rparr>"

definition variadicChisel :: "int list Resolver" where
  "variadicChisel = \<lparr>ResolverFunc =
     Iface (Func [Boulder, SliceOf Stick] True [Stone, ErrorInterface])
       (\<lambda>inputs. [Value Stone False [0], nilError])\<rparr>"

text \<open>
  A schedule that differs from call to call: the keys in reverse at the root and at every
  second level below it, in the order of the association list at the levels between.
\<close>

definition alternating :: "'a ProductionMap \<Rightarrow> schedule" where
  "alternating pm = (\<lambda>path. if even (length path) then rev (map fst pm) else map fst pm)"

section \<open>Basic facts\<close>

lemma InputTypes_eq: "InputTypes r = type_ins (rType r)"
  by (simp add: InputTypes_def NumIn_def map_nth)

lemma seen_twice_iff: "seen_twice seen vs \<longleftrightarrow> (\<not> distinct vs \<or> set vs \<inter> set seen \<noteq> {})"
  by (induction vs arbitrary: seen) auto

lemma length_two_iff: "length xs = 2 \<longleftrightarrow> (\<exists>a b. xs = [a, b])"
  by (cases xs; cases "tl xs") auto

lemma Validate_None_iff:
  "Validate r = None \<longleftrightarrow>
     (\<exists>ins variadic out e. rType r = Func ins variadic [out, e] \<and> Implements_error e \<and>
        ins \<noteq> [] \<and> distinct ins)"
proof (cases "rType r")
  case (Func ins variadic outs)
  then show ?thesis
    by (auto simp: Validate_def InputTypes_eq seen_twice_iff NumIn_def NumOut_def length_two_iff)
qed (simp_all add: Validate_def)

lemma Validate_OutputType:
  "Validate r = None \<Longrightarrow> OutputType_opt r = Some (OutputType r)"
  by (auto simp: Validate_None_iff OutputType_def OutputType_opt_def)

lemma foldl_append_children:
  "foldl (\<lambda>root r. if skip r then root
            else PossibilityNode (Resolver root) (Inputs root) (NextSteps root @ [child r]))
     root rs =
   PossibilityNode (Resolver root) (Inputs root)
     (NextSteps root @ map child (filter (\<lambda>r. \<not> skip r) rs))"
  by (induction rs arbitrary: root) simp_all

section \<open>Pruning\<close>

lemma nodes_self: "n \<in> set (nodes n)"
  by (cases n) simp


lemma nodes_cases:
  "m \<in> set (nodes n) \<longleftrightarrow> m = n \<or> (\<exists>c \<in> set (NextSteps n). m \<in> set (nodes c))"
  by (cases n) auto

lemma keep_by_index:
  "map (\<lambda>i. f (xs ! i)) (filter (\<lambda>i. P (xs ! i)) [0..<length xs]) = map f (filter P xs)"
proof -
  have "map f (filter P (map ((!) xs) [0..<length xs])) =
        map (\<lambda>i. f (xs ! i)) (filter (\<lambda>i. P (xs ! i)) [0..<length xs])"
    by (simp add: filter_map comp_def)
  then show ?thesis by (simp add: map_nth)
qed

lemma PruneFor_node:
  "PruneFor (PossibilityNode res ins next) target =
     (if applies target (PossibilityNode res ins next) then (PossibilityNode res ins [], None)
      else
        let kept = map fst (filter (\<lambda>p. snd p = None) (map (\<lambda>n. PruneFor n target) next))
        in if kept = [] then (PossibilityNode res ins [], Some TargetUnreachable)
           else (PossibilityNode res ins kept, None))"
proof -
  define pruned where "pruned = map (\<lambda>n. PruneFor n target) next"
  have len: "length next = length pruned" by (simp add: pruned_def)
  have kept: "map (\<lambda>i. fst (pruned ! i))
          (filter (\<lambda>i. snd (pruned ! i) = None) [0..<length next]) =
        map fst (filter (\<lambda>p. snd p = None) pruned)"
    unfolding len by (rule keep_by_index)
  have "length (map (\<lambda>i. fst (pruned ! i))
          (filter (\<lambda>i. snd (pruned ! i) = None) [0..<length next])) =
        length (map fst (filter (\<lambda>p. snd p = None) pruned))"
    by (simp only: kept)
  then have none: "length (filter (\<lambda>i. snd (pruned ! i) = None) [0..<length next]) = 0 \<longleftrightarrow>
        map fst (filter (\<lambda>p. snd p = None) pruned) = []"
    by simp
  show ?thesis
    unfolding PruneFor.simps applies_def Let_def pruned_def [symmetric]
    by (simp only: kept none PossibilityNode.sel)
qed

declare PruneFor.simps [simp del]

lemma PruneFor_fails_iff:
  "snd (PruneFor n target) = Some TargetUnreachable \<longleftrightarrow>
     \<not> list_ex (applies target) (nodes n)"
proof (induction n target rule: PruneFor.induct)
  case (1 res ins "next" target)
  let ?n = "PossibilityNode res ins next"
  show ?case
  proof (cases "applies target ?n")
    case True
    then show ?thesis by (simp add: PruneFor_node list_ex_iff)
  next
    case False
    then have nores: "\<not> (case res of None \<Rightarrow> False | Some r \<Rightarrow> OutputType r = target)"
      by (simp add: applies_def)
    have IH: "\<And>c. c \<in> set next \<Longrightarrow>
        snd (PruneFor c target) = Some TargetUnreachable \<longleftrightarrow>
          \<not> list_ex (applies target) (nodes c)"
      using "1.IH" [OF nores] by blast
    have "snd (PruneFor ?n target) = Some TargetUnreachable \<longleftrightarrow>
          (\<forall>c \<in> set next. snd (PruneFor c target) \<noteq> None)"
      using False by (auto simp: PruneFor_node Let_def filter_empty_conv)
    also have "\<dots> \<longleftrightarrow> (\<forall>c \<in> set next. snd (PruneFor c target) = Some TargetUnreachable)"
      by (metis option.exhaust prune_error.exhaust option.distinct(1))
    also have "\<dots> \<longleftrightarrow> (\<forall>c \<in> set next. \<not> list_ex (applies target) (nodes c))"
      using IH by blast
    also have "\<dots> \<longleftrightarrow> \<not> list_ex (applies target) (nodes ?n)"
      using False by (auto simp: list_ex_iff)
    finally show ?thesis .
  qed
qed


section \<open>Registration\<close>

lemma bucket_update: "bucket (AList.update k v pm) k' = (if k' = k then v else bucket pm k')"
  by (simp add: bucket_def update_conv')

lemma bucket_inserted:
  "bucket (inserted pm r) t = (if t = OutputType r then bucket pm t @ [r] else bucket pm t)"
  by (simp add: inserted_def bucket_update)

lemma rollback:
  fixes pm :: "'a ProductionMap" and k r
  assumes "no_empty_bucket pm"
  defines "pm1 \<equiv> AList.update k (bucket pm k @ [r]) pm"
  defines "pm2 \<equiv> AList.update k (butlast (bucket pm1 k)) pm1"
  shows "(if length (bucket pm2 k) = 0 then AList.delete k pm2 else pm2) = pm"
proof -
  have pm2: "pm2 = AList.update k (bucket pm k) pm"
    by (simp add: pm2_def pm1_def bucket_update)
  have b2: "bucket pm2 k = bucket pm k"
    by (simp add: pm2 bucket_update)
  show ?thesis
  proof (cases "map_of pm k")
    case None
    then have "k \<notin> fst ` set pm" by (simp add: map_of_eq_None_iff)
    then have "AList.delete k pm2 = pm" by (simp add: pm2 delete_update_same)
    moreover from None have "bucket pm k = []" by (simp add: bucket_def)
    ultimately show ?thesis by (simp add: b2)
  next
    case (Some rs)
    then have "(k, rs) \<in> set pm" by (rule map_of_SomeD)
    with assms(1) have "rs \<noteq> []" by (auto simp: no_empty_bucket_def list_all_iff)
    moreover from Some have "bucket pm k = rs" by (simp add: bucket_def)
    moreover from this Some have "pm2 = pm" by (simp add: pm2 update_triv)
    ultimately show ?thesis by (simp add: b2)
  qed
qed

lemma Add_cases:
  "Add pm r =
     (case Validate r of
        Some err \<Rightarrow> (pm, Some (InvalidProducer err))
      | None \<Rightarrow>
          if same_signature pm r then (pm, Some DuplicateProducer)
          else if IsDAG (inserted pm r) then (inserted pm r, None)
          else
            (let pm1 = inserted pm r;
                 pm2 = AList.update (OutputType r) (butlast (bucket pm1 (OutputType r))) pm1
             in if length (bucket pm2 (OutputType r)) = 0
                then AList.delete (OutputType r) pm2 else pm2,
             Some CyclicDependency))"
  by (simp add: Add_def same_signature_def inserted_def Let_def split: option.splits)

lemma Add_cases_inv:
  assumes "no_empty_bucket pm"
  shows "Add pm r =
     (case Validate r of
        Some err \<Rightarrow> (pm, Some (InvalidProducer err))
      | None \<Rightarrow>
          if same_signature pm r then (pm, Some DuplicateProducer)
          else if IsDAG (inserted pm r) then (inserted pm r, None)
          else (pm, Some CyclicDependency))"
  using rollback [OF assms, of "OutputType r" r]
  by (simp add: Add_cases inserted_def Let_def split: option.splits)

lemma Add_failure_restores:
  assumes "no_empty_bucket pm" and "snd (Add pm r) \<noteq> None"
  shows "fst (Add pm r) = pm"
  using assms(2) by (simp add: Add_cases_inv [OF assms(1)] split: option.splits if_splits)

lemma Add_duplicate_iff:
  "snd (Add pm r) = Some DuplicateProducer \<longleftrightarrow>
     Validate r = None \<and> (\<exists>q \<in> set (bucket pm (OutputType r)). rType q = rType r)"
  by (auto simp: Add_cases same_signature_def list_ex_iff split: option.splits)

lemma slots_resolvers: "map snd (slots pm t) = bucket pm t"
  by (simp add: slots_def comp_def map_nth)

lemma List_buckets: "List keys pm = concat (map (bucket pm) keys)"
  by (simp add: List_def slots_resolvers comp_def)

lemma producers_buckets: "producers pm = concat (map (bucket pm) (map fst pm))"
  by (simp add: producers_def List_buckets)

lemma bucket_entry: "distinct (map fst pm) \<Longrightarrow> (t, rs) \<in> set pm \<Longrightarrow> bucket pm t = rs"
  by (simp add: bucket_def)

lemma bucket_member: "r \<in> set (bucket pm t) \<Longrightarrow> (t, bucket pm t) \<in> set pm"
  by (auto simp: bucket_def split: option.splits dest: map_of_SomeD)

lemma producers_member: "r \<in> set (producers pm) \<longleftrightarrow> (\<exists>t. r \<in> set (bucket pm t))"
proof
  assume "r \<in> set (producers pm)"
  then show "\<exists>t. r \<in> set (bucket pm t)" by (auto simp: producers_buckets)
next
  assume "\<exists>t. r \<in> set (bucket pm t)"
  then obtain t where t: "r \<in> set (bucket pm t)" by blast
  then have "(t, bucket pm t) \<in> set pm" by (rule bucket_member)
  then have "t \<in> fst ` set pm" by force
  with t show "r \<in> set (producers pm)" by (auto simp: producers_buckets)
qed

lemma producers_entries: "distinct (map fst pm) \<Longrightarrow> producers pm = concat (map snd pm)"
proof -
  assume d: "distinct (map fst pm)"
  have "map (bucket pm) (map fst pm) = map snd pm"
    using bucket_entry [OF d] by (auto simp: map_eq_conv)
  then show ?thesis by (simp only: producers_buckets)
qed

lemma well_keyed_bucket:
  assumes "well_keyed pm" "r \<in> set (bucket pm t)"
  shows "Validate r = None" "OutputType r = t"
proof -
  from assms(2) have "(t, bucket pm t) \<in> set pm" by (rule bucket_member)
  with assms show "Validate r = None" "OutputType r = t"
    by (auto simp: well_keyed_def list_all_iff)
qed

lemma well_keyed_all_valid: "well_keyed pm \<Longrightarrow> all_valid pm"
  by (auto simp: all_valid_def list_all_iff producers_member dest: well_keyed_bucket)

lemma well_keyed_no_empty_bucket: "well_keyed pm \<Longrightarrow> no_empty_bucket pm"
  by (auto simp: well_keyed_def no_empty_bucket_def list_all_iff)

lemma set_update_subset:
  "set (AList.update k v pm) \<subseteq> insert (k, v) (set pm)"
  by (induction pm) auto

lemma well_keyed_inserted:
  assumes "well_keyed pm" "Validate r = None"
  shows "well_keyed (inserted pm r)"
proof -
  let ?k = "OutputType r"
  have d: "distinct (map fst (inserted pm r))"
    using assms(1) by (simp add: inserted_def well_keyed_def distinct_update)
  have "rs \<noteq> [] \<and> (\<forall>q \<in> set rs. Validate q = None \<and> OutputType q = t)"
    if "(t, rs) \<in> set (inserted pm r)" for t rs
  proof -
    from that set_update_subset [of ?k "bucket pm ?k @ [r]" pm]
    consider "t = ?k" "rs = bucket pm ?k @ [r]" | "(t, rs) \<in> set pm"
      by (auto simp: inserted_def)
    then show ?thesis
    proof cases
      case 1
      with assms show ?thesis by (auto dest: well_keyed_bucket)
    next
      case 2
      with assms(1) show ?thesis by (auto simp: well_keyed_def list_all_iff)
    qed
  qed
  with d show ?thesis by (auto simp: well_keyed_def list_all_iff)
qed

lemma well_keyed_Add: "well_keyed pm \<Longrightarrow> well_keyed (fst (Add pm r))"
  by (simp add: Add_cases_inv well_keyed_no_empty_bucket well_keyed_inserted
      split: option.splits)

lemma IsDAG_empty: "IsDAG []"
  by (simp add: IsDAG_def)

lemma registry_inv_empty: "registry_inv []"
  by (simp add: registry_inv_def well_keyed_def IsDAG_empty)

lemma registry_inv_Add: "registry_inv pm \<Longrightarrow> registry_inv (fst (Add pm r))"
  by (simp add: registry_inv_def Add_cases_inv well_keyed_no_empty_bucket well_keyed_inserted
      split: option.splits)

lemma producers_inserted:
  assumes "distinct (map fst pm)"
  shows "mset (producers (inserted pm r)) = add_mset r (mset (producers pm))"
proof -
  let ?k = "OutputType r"
  have d: "distinct (map fst (inserted pm r))"
    using assms by (simp add: inserted_def distinct_update)
  have upd: "distinct (map fst al) \<Longrightarrow>
      mset (concat (map snd (AList.update k (bucket al k @ [x]) al))) =
      add_mset x (mset (concat (map snd al)))" for al :: "'a ProductionMap" and k x
  proof (induction al)
    case Nil
    show ?case by (simp add: bucket_def)
  next
    case (Cons p al)
    obtain t rs where p: "p = (t, rs)" by (cases p)
    show ?case
    proof (cases "t = k")
      case True
      then show ?thesis by (simp add: p bucket_def)
    next
      case False
      then have "bucket (p # al) k = bucket al k" by (simp add: p bucket_def)
      with False Cons show ?thesis by (simp add: p)
    qed
  qed
  have "mset (producers (inserted pm r)) = mset (concat (map snd (inserted pm r)))"
    by (simp only: producers_entries [OF d])
  also have "\<dots> = add_mset r (mset (concat (map snd pm)))"
    unfolding inserted_def by (rule upd [OF assms])
  also have "\<dots> = add_mset r (mset (producers pm))"
    by (simp only: producers_entries [OF assms])
  finally show ?thesis .
qed

section \<open>The cycle check\<close>

lemma edges_iff:
  "(i, t) \<in> edges pm \<longleftrightarrow> (\<exists>r \<in> set (producers pm). i \<in> set (InputTypes r) \<and> t = OutputType r)"
  by (auto simp: edges_def edge_list_def)

lemma slot_key: "p \<in> set (slots pm t) \<Longrightarrow> fst (fst p) = t"
  by (auto simp: slots_def)

lemma slots_is_slot: "p \<in> set (slots pm t) \<Longrightarrow> is_slot pm p"
  by (simp add: is_slot_def slot_key)

lemma slot_resolver: "p \<in> set (slots pm t) \<Longrightarrow> snd p \<in> set (bucket pm t)"
  by (auto simp: slots_def)

lemma slot_shape:
  assumes "is_slot pm p"
  shows "snd p = bucket pm (fst (fst p)) ! snd (fst p)"
proof -
  obtain t i res where p: "p = ((t, i), res)" by (metis prod.collapse)
  from assms show ?thesis unfolding p by (auto simp: is_slot_def slots_def)
qed

lemma slot_unique: "is_slot pm p \<Longrightarrow> is_slot pm q \<Longrightarrow> fst p = fst q \<Longrightarrow> p = q"
  using slot_shape [of pm p] slot_shape [of pm q] by (simp add: prod_eq_iff)

lemma bucket_slot: "r \<in> set (bucket pm t) \<Longrightarrow> \<exists>p \<in> set (slots pm t). snd p = r"
  by (auto simp: slots_def in_set_conv_nth image_iff)

lemma walk_target_slot: "(p, q) \<in> walk pm \<Longrightarrow> is_slot pm q"
  by (auto simp: walk_def slots_is_slot)

lemma walk_source_slot: "(p, q) \<in> walk pm \<Longrightarrow> is_slot pm p"
  by (auto simp: walk_def)

lemma walk_rtrancl_slot: "(p, q) \<in> (walk pm)\<^sup>* \<Longrightarrow> is_slot pm p \<Longrightarrow> is_slot pm q"
  by (induction rule: rtrancl_induct) (auto dest: walk_target_slot)

lemma walk_trancl_slot: "(p, q) \<in> (walk pm)\<^sup>+ \<Longrightarrow> is_slot pm q"
  by (induction rule: trancl_induct) (auto dest: walk_target_slot)

lemma HasCycle_step:
  "HasCycle pm r visited \<longleftrightarrow>
     fst r \<in> set visited \<or>
     (\<exists>x \<in> set (InputTypes (snd r)). \<exists>r' \<in> set (slots pm x). HasCycle pm r' (fst r # visited))"
  by (subst HasCycle.simps) (auto simp: list_ex_iff)

lemma HasCycle_iff:
  "is_slot pm r \<Longrightarrow>
   HasCycle pm r visited \<longleftrightarrow>
     (\<exists>q. (r, q) \<in> (walk pm)\<^sup>* \<and> (fst q \<in> set visited \<or> (q, q) \<in> (walk pm)\<^sup>+))"
proof (induction pm r visited rule: HasCycle.induct)
  case (1 pm r visited)
  let ?W = "walk pm"
  have IH: "HasCycle pm r' (fst r # visited) \<longleftrightarrow>
      (\<exists>q. (r', q) \<in> ?W\<^sup>* \<and> (fst q \<in> set (fst r # visited) \<or> (q, q) \<in> ?W\<^sup>+))"
    if "fst r \<notin> set visited" "x \<in> set (InputTypes (snd r))" "r' \<in> set (slots pm x)" for x r'
    using "1.IH" [OF that] that(3) by (simp add: slots_is_slot)
  show ?case
  proof (cases "fst r \<in> set visited")
    case True
    then have "HasCycle pm r visited" by (simp add: HasCycle_step [of pm r visited])
    moreover from True have "\<exists>q. (r, q) \<in> ?W\<^sup>* \<and> (fst q \<in> set visited \<or> (q, q) \<in> ?W\<^sup>+)"
      by blast
    ultimately show ?thesis by blast
  next
    case False
    show ?thesis
    proof
      assume "HasCycle pm r visited"
      with False obtain x r' where x: "x \<in> set (InputTypes (snd r))" and r': "r' \<in> set (slots pm x)"
        and h: "HasCycle pm r' (fst r # visited)"
        by (auto simp: HasCycle_step [of pm r visited])
      from x r' "1.prems" have step: "(r, r') \<in> ?W" by (auto simp: walk_def)
      from IH [OF False x r'] h obtain q where q: "(r', q) \<in> ?W\<^sup>*"
        and c: "fst q \<in> set (fst r # visited) \<or> (q, q) \<in> ?W\<^sup>+" by blast
      from step q have rq: "(r, q) \<in> ?W\<^sup>+" by (rule rtrancl_into_trancl2)
      show "\<exists>q. (r, q) \<in> ?W\<^sup>* \<and> (fst q \<in> set visited \<or> (q, q) \<in> ?W\<^sup>+)"
      proof (cases "fst q = fst r")
        case True
        from rq have "is_slot pm q" by (rule walk_trancl_slot)
        with "1.prems" True have "q = r" by (auto dest: slot_unique)
        with rq have "(r, r) \<in> ?W\<^sup>+" by simp
        then show ?thesis by blast
      next
        case False
        from rq have "(r, q) \<in> ?W\<^sup>*" by (rule trancl_into_rtrancl)
        with c False show ?thesis by (intro exI [of _ q]) auto
      qed
    next
      assume "\<exists>q. (r, q) \<in> ?W\<^sup>* \<and> (fst q \<in> set visited \<or> (q, q) \<in> ?W\<^sup>+)"
      then obtain q where rq: "(r, q) \<in> ?W\<^sup>*"
        and c: "fst q \<in> set visited \<or> (q, q) \<in> ?W\<^sup>+" by blast
      have "\<exists>r' q'. (r, r') \<in> ?W \<and> (r', q') \<in> ?W\<^sup>* \<and>
              (fst q' \<in> set (fst r # visited) \<or> (q', q') \<in> ?W\<^sup>+)"
      proof (cases "q = r")
        case True
        with c False have "(r, r) \<in> ?W\<^sup>+" by simp
        then obtain r' where "(r, r') \<in> ?W" "(r', r) \<in> ?W\<^sup>*" by (metis tranclD)
        then show ?thesis by (intro exI [of _ r'] exI [of _ r]) simp
      next
        case False
        with rq obtain r' where "(r, r') \<in> ?W" "(r', q) \<in> ?W\<^sup>*"
          by (metis converse_rtranclE)
        with c show ?thesis by (intro exI [of _ r'] exI [of _ q]) auto
      qed
      then obtain r' q' where step: "(r, r') \<in> ?W" and q': "(r', q') \<in> ?W\<^sup>*"
        and c': "fst q' \<in> set (fst r # visited) \<or> (q', q') \<in> ?W\<^sup>+" by blast
      from step obtain x where x: "x \<in> set (InputTypes (snd r))" and r': "r' \<in> set (slots pm x)"
        by (auto simp: walk_def)
      from IH [OF False x r'] q' c' have "HasCycle pm r' (fst r # visited)" by blast
      with x r' show "HasCycle pm r visited" by (auto simp: HasCycle_step [of pm r visited])
    qed
  qed
qed

lemma IsDAG_walk: "IsDAG pm \<longleftrightarrow> acyclic (walk pm)"
proof -
  let ?W = "walk pm"
  have "\<not> IsDAG pm \<longleftrightarrow> (\<exists>t \<in> fst ` set pm. \<exists>r \<in> set (slots pm t). HasCycle pm r [])"
    by (auto simp: IsDAG_def list_ex_iff)
  also have "\<dots> \<longleftrightarrow> (\<exists>r. is_slot pm r \<and> HasCycle pm r [])"
  proof
    assume "\<exists>t \<in> fst ` set pm. \<exists>r \<in> set (slots pm t). HasCycle pm r []"
    then show "\<exists>r. is_slot pm r \<and> HasCycle pm r []" by (auto dest: slots_is_slot)
  next
    assume "\<exists>r. is_slot pm r \<and> HasCycle pm r []"
    then obtain r where r: "r \<in> set (slots pm (fst (fst r)))" and h: "HasCycle pm r []"
      by (auto simp: is_slot_def)
    from r have "snd r \<in> set (bucket pm (fst (fst r)))" by (rule slot_resolver)
    then have "(fst (fst r), bucket pm (fst (fst r))) \<in> set pm" by (rule bucket_member)
    then have "fst (fst r) \<in> fst ` set pm" by force
    with r h show "\<exists>t \<in> fst ` set pm. \<exists>r \<in> set (slots pm t). HasCycle pm r []" by blast
  qed
  also have "\<dots> \<longleftrightarrow> (\<exists>r. is_slot pm r \<and> (\<exists>q. (r, q) \<in> ?W\<^sup>* \<and> (q, q) \<in> ?W\<^sup>+))"
  proof -
    have "HasCycle pm r [] \<longleftrightarrow> (\<exists>q. (r, q) \<in> ?W\<^sup>* \<and> (q, q) \<in> ?W\<^sup>+)" if "is_slot pm r" for r
      using HasCycle_iff [OF that, of "[]"] by simp
    then show ?thesis by blast
  qed
  also have "\<dots> \<longleftrightarrow> (\<exists>q. (q, q) \<in> ?W\<^sup>+)"
  proof
    assume "\<exists>r. is_slot pm r \<and> (\<exists>q. (r, q) \<in> ?W\<^sup>* \<and> (q, q) \<in> ?W\<^sup>+)"
    then show "\<exists>q. (q, q) \<in> ?W\<^sup>+" by blast
  next
    assume "\<exists>q. (q, q) \<in> ?W\<^sup>+"
    then obtain q where q: "(q, q) \<in> ?W\<^sup>+" by blast
    then have "is_slot pm q" by (rule walk_trancl_slot)
    with q show "\<exists>r. is_slot pm r \<and> (\<exists>q. (r, q) \<in> ?W\<^sup>* \<and> (q, q) \<in> ?W\<^sup>+)" by blast
  qed
  finally show ?thesis by (auto simp: acyclic_def)
qed

lemma slot_in_bucket: "is_slot pm p \<Longrightarrow> snd p \<in> set (bucket pm (key p))"
  by (simp add: is_slot_def key_def slot_resolver)

lemma walk_edge:
  assumes "well_keyed pm" "(p, q) \<in> walk pm"
  shows "(key q, key p) \<in> edges pm"
proof -
  from assms(2) obtain x where p: "is_slot pm p" and x: "x \<in> set (InputTypes (snd p))"
    and q: "q \<in> set (slots pm x)" by (auto simp: walk_def)
  from p have b: "snd p \<in> set (bucket pm (key p))" by (rule slot_in_bucket)
  then have "snd p \<in> set (producers pm)" by (auto simp: producers_member)
  moreover from assms(1) b have "OutputType (snd p) = key p" by (rule well_keyed_bucket)
  moreover from q have "key q = x" by (simp add: key_def slot_key)
  ultimately show ?thesis using x by (auto simp: edges_iff)
qed

lemma walk_trancl_edges:
  assumes "well_keyed pm" "(p, q) \<in> (walk pm)\<^sup>+"
  shows "(key q, key p) \<in> (edges pm)\<^sup>+"
  using assms(2)
proof (induction rule: trancl_induct)
  case (base q)
  then show ?case using walk_edge [OF assms(1)] by blast
next
  case (step q q')
  from step.hyps(2) have "(key q', key q) \<in> edges pm" by (rule walk_edge [OF assms(1)])
  with step.IH show ?case by (rule trancl_into_trancl2 [rotated])
qed

lemma edge_walk:
  assumes "well_keyed pm" "(a, b) \<in> edges pm" "is_slot pm q" "key q = a"
  shows "\<exists>p. is_slot pm p \<and> key p = b \<and> (p, q) \<in> walk pm"
proof -
  from assms(2) obtain r where r: "r \<in> set (producers pm)" and a: "a \<in> set (InputTypes r)"
    and b: "b = OutputType r" by (auto simp: edges_iff)
  from r obtain t where t: "r \<in> set (bucket pm t)" by (auto simp: producers_member)
  with assms(1) have "OutputType r = t" by (rule well_keyed_bucket)
  with t b have "r \<in> set (bucket pm b)" by simp
  then obtain p where p: "p \<in> set (slots pm b)" and pr: "snd p = r" by (auto dest: bucket_slot)
  from p have sp: "is_slot pm p" by (rule slots_is_slot)
  from p have kp: "key p = b" by (simp add: key_def slot_key)
  from assms(3,4) have "q \<in> set (slots pm a)" by (simp add: is_slot_def key_def)
  with sp a pr have "(p, q) \<in> walk pm" by (auto simp: walk_def)
  with sp kp show ?thesis by blast
qed

lemma edges_trancl_walk:
  assumes "well_keyed pm" "(a, b) \<in> (edges pm)\<^sup>+"
  shows "is_slot pm q \<Longrightarrow> key q = a \<Longrightarrow> \<exists>p. is_slot pm p \<and> key p = b \<and> (p, q) \<in> (walk pm)\<^sup>+"
  using assms(2)
proof (induction arbitrary: q rule: trancl_induct)
  case (base b)
  from edge_walk [OF assms(1) base.hyps base.prems] show ?case by blast
next
  case (step b c)
  from step.IH [OF step.prems] obtain p where p: "is_slot pm p" "key p = b"
    and pq: "(p, q) \<in> (walk pm)\<^sup>+" by blast
  from edge_walk [OF assms(1) step.hyps(2) p] obtain p' where p': "is_slot pm p'" "key p' = c"
    and w: "(p', p) \<in> walk pm" by blast
  from w pq have "(p', q) \<in> (walk pm)\<^sup>+" by (rule trancl_into_trancl2)
  with p' show ?case by blast
qed

lemma walk_into_same_key:
  assumes "(p', q) \<in> walk pm" "is_slot pm p" "key p = key q"
  shows "(p', p) \<in> walk pm"
proof -
  from assms(1) obtain x where p': "is_slot pm p'" and x: "x \<in> set (InputTypes (snd p'))"
    and q: "q \<in> set (slots pm x)" by (auto simp: walk_def)
  from q have "key q = x" by (simp add: key_def slot_key)
  with assms(2,3) have "p \<in> set (slots pm x)" by (simp add: is_slot_def key_def)
  with p' x show ?thesis by (auto simp: walk_def)
qed

lemma acyclic_walk_edges:
  assumes "well_keyed pm"
  shows "acyclic (walk pm) \<longleftrightarrow> acyclic (edges pm)"
proof -
  have "(\<exists>q. (q, q) \<in> (walk pm)\<^sup>+) \<longleftrightarrow> (\<exists>c. (c, c) \<in> (edges pm)\<^sup>+)"
  proof
    assume "\<exists>q. (q, q) \<in> (walk pm)\<^sup>+"
    then obtain q where "(q, q) \<in> (walk pm)\<^sup>+" by blast
    then have "(key q, key q) \<in> (edges pm)\<^sup>+" by (rule walk_trancl_edges [OF assms])
    then show "\<exists>c. (c, c) \<in> (edges pm)\<^sup>+" by blast
  next
    assume "\<exists>c. (c, c) \<in> (edges pm)\<^sup>+"
    then obtain c where c: "(c, c) \<in> (edges pm)\<^sup>+" by blast
    then obtain x where "(x, c) \<in> edges pm" by (metis tranclD2)
    then obtain r where r: "r \<in> set (producers pm)" and o: "c = OutputType r"
      by (auto simp: edges_iff)
    from r obtain t where t: "r \<in> set (bucket pm t)" by (auto simp: producers_member)
    with assms have "OutputType r = t" by (rule well_keyed_bucket)
    with t o have "r \<in> set (bucket pm c)" by simp
    then obtain q where "q \<in> set (slots pm c)" by (auto dest: bucket_slot)
    then have q: "is_slot pm q" "key q = c" by (simp_all add: slots_is_slot key_def slot_key)
    from edges_trancl_walk [OF assms c q] obtain p where p: "is_slot pm p" "key p = c"
      and pq: "(p, q) \<in> (walk pm)\<^sup>+" by blast
    from pq obtain p' where pp': "(p, p') \<in> (walk pm)\<^sup>*" and last: "(p', q) \<in> walk pm"
      by (metis tranclD2)
    from p(2) q(2) have "key p = key q" by simp
    with last p(1) have "(p', p) \<in> walk pm" by (rule walk_into_same_key)
    with pp' have "(p, p) \<in> (walk pm)\<^sup>+" by (rule rtrancl_into_trancl1)
    then show "\<exists>q. (q, q) \<in> (walk pm)\<^sup>+" by blast
  qed
  then show ?thesis unfolding acyclic_def by blast
qed

lemma IsDAG_edges: "well_keyed pm \<Longrightarrow> IsDAG pm \<longleftrightarrow> acyclic (edges pm)"
  by (simp add: IsDAG_walk acyclic_walk_edges)

section \<open>Counting\<close>

lemma foldl_count: "foldl (\<lambda>count node. count + Count node) a ns = a + sum_list (map Count ns)"
  by (induction ns arbitrary: a) simp_all

lemma Count_node: "Count (PossibilityNode r ins ns) = 1 + sum_list (map Count ns)"
  by (simp add: foldl_count)

lemma sum_list_filter_mset:
  "sum_list (map f (filter P xs)) = sum_mset (image_mset f (filter_mset P (mset xs)))"
  by (induction xs) simp_all

section \<open>Registering several producers\<close>

lemma Add_accepted:
  assumes "well_keyed pm" "Add pm r = (pm', None)"
  shows "well_keyed pm'" "mset (producers pm') = add_mset r (mset (producers pm))"
proof -
  from assms(1) have n: "no_empty_bucket pm" by (rule well_keyed_no_empty_bucket)
  from assms(2) have pm': "pm' = inserted pm r"
    by (simp add: Add_cases_inv [OF n] split: option.splits if_splits)
  from well_keyed_Add [OF assms(1), of r] assms(2) show "well_keyed pm'" by simp
  from assms(1) have "distinct (map fst pm)" by (simp add: well_keyed_def)
  then show "mset (producers pm') = add_mset r (mset (producers pm))"
    unfolding pm' by (rule producers_inserted)
qed

lemma AddAll_contents:
  "well_keyed pm0 \<Longrightarrow> AddAll pm0 rs = (pm, None) \<Longrightarrow>
   well_keyed pm \<and> mset (producers pm) = mset (producers pm0) + mset rs"
proof (induction rs arbitrary: pm0)
  case Nil
  then show ?case by simp
next
  case (Cons r rs)
  obtain pm1 e where a: "Add pm0 r = (pm1, e)" by (cases "Add pm0 r")
  with Cons.prems(2) have e: "e = None" and rest: "AddAll pm1 rs = (pm, None)"
    by (auto split: option.splits)
  from Add_accepted [OF Cons.prems(1) a [unfolded e]]
  have w: "well_keyed pm1" and l: "mset (producers pm1) = add_mset r (mset (producers pm0))" .
  from Cons.IH [OF w rest] l show ?case by simp
qed

lemma well_keyed_empty: "well_keyed []"
  by (simp add: well_keyed_def)

lemma producers_empty: "producers [] = []"
  by (simp add: producers_def List_def)

section \<open>Depth of the tree\<close>

lemma output_count_card: "output_count pm = card (outputs pm)"
  by (simp add: output_count_def outputs_def length_remdups_card_conv)

lemma foldl_max_le:
  "foldl (\<lambda>d n. max d (f n)) a ns \<le> k \<longleftrightarrow> a \<le> k \<and> (\<forall>n \<in> set ns. f n \<le> (k::nat))"
  by (induction ns arbitrary: a) auto

lemma Depth_le_iff: "Depth n \<le> k \<longleftrightarrow> (\<forall>c \<in> set (NextSteps n). Suc (Depth c) \<le> k)"
  by (cases n) (simp add: foldl_max_le)

lemma Depth_child: "c \<in> set (NextSteps n) \<Longrightarrow> Suc (Depth c) \<le> Depth n"
  using Depth_le_iff [of n "Depth n"] by simp

lemma finite_outputs: "finite (outputs pm)"
  by (simp add: outputs_def)

lemma card_outputs_step:
  assumes "z \<in> outputs pm" "z \<notin> set A"
  shows "card (outputs pm - set A) = Suc (card (outputs pm - set (A @ [z])))"
proof -
  have "outputs pm - set A = insert z (outputs pm - set (A @ [z]))" using assms by auto
  moreover have "z \<notin> outputs pm - set (A @ [z])" by simp
  moreover have "finite (outputs pm - set (A @ [z]))" by (simp add: finite_outputs)
  ultimately show ?thesis by (metis card_insert_disjoint)
qed

lemma finite_edges: "finite (edges pm)"
  by (simp add: edges_def)

lemma raw_inputs_cover:
  "\<forall>r \<in> set (producers pm). \<forall>i \<in> set (InputTypes r). i \<in> outputs pm \<or> i \<in> set (raw_inputs pm)"
  by (auto simp: raw_inputs_def outputs_def list_ex_iff)

lemma raw_inputs_no_output: "outputs pm - set (raw_inputs pm) = outputs pm"
  by (auto simp: raw_inputs_def outputs_def list_ex_iff)

section \<open>Facts about the scenario\<close>

lemmas example_types = Boulder_def Tree_def Stone_def Stick_def Axe_def Hammer_def

lemma Add_accepts:
  assumes "Validate r = None" "\<not> same_signature pm r" "IsDAG (inserted pm r)"
  shows "Add pm r = (inserted pm r, None)"
  using assms by (simp add: Add_cases)

lemma add1: "Add [] chiselStone = (productions1, None)"
proof -
  have "Validate chiselStone = None" by code_simp
  moreover have "\<not> same_signature [] chiselStone" by code_simp
  moreover have "IsDAG (inserted [] chiselStone)" by code_simp
  moreover have "inserted [] chiselStone = productions1"
    by (simp add: inserted_def productions1_def bucket_def OutputType_def OutputType_opt_def
        rType_def chiselStone_def)
  ultimately show ?thesis by (simp add: Add_accepts)
qed

lemma OutputType_examples:
  "OutputType chiselStone = Stone" "OutputType pickupStick = Stick"
  "OutputType assembleAxe = Axe" "OutputType assembleHammer = Hammer"
  by (simp_all add: OutputType_def OutputType_opt_def rType_def chiselStone_def pickupStick_def
      assembleAxe_def assembleHammer_def)

lemma add2: "Add productions1 pickupStick = (productions2, None)"
proof -
  have "Validate pickupStick = None" by code_simp
  moreover have "\<not> same_signature productions1 pickupStick" by code_simp
  moreover have "IsDAG (inserted productions1 pickupStick)" by code_simp
  moreover have "inserted productions1 pickupStick = productions2"
    by (simp add: inserted_def productions1_def productions2_def bucket_def OutputType_examples
        example_types)
  ultimately show ?thesis by (simp add: Add_accepts)
qed

lemma add3: "Add productions2 assembleAxe = (productions3, None)"
proof -
  have "Validate assembleAxe = None" by code_simp
  moreover have "\<not> same_signature productions2 assembleAxe" by code_simp
  moreover have "IsDAG (inserted productions2 assembleAxe)" by code_simp
  moreover have "inserted productions2 assembleAxe = productions3"
    by (simp add: inserted_def productions3_def productions2_def bucket_def OutputType_examples
        example_types)
  ultimately show ?thesis by (simp add: Add_accepts)
qed

lemma add4: "Add productions3 assembleHammer = (productions4, None)"
proof -
  have "Validate assembleHammer = None" by code_simp
  moreover have "\<not> same_signature productions3 assembleHammer" by code_simp
  moreover have "IsDAG (inserted productions3 assembleHammer)" by code_simp
  moreover have "inserted productions3 assembleHammer = productions4"
    by (simp add: inserted_def productions3_def productions4_def bucket_def OutputType_examples
        example_types)
  ultimately show ?thesis by (simp add: Add_accepts)
qed

lemma PruneFor_failure_cuts:
  "snd (PruneFor n target) = Some TargetUnreachable \<Longrightarrow> NextSteps (fst (PruneFor n target)) = []"
  by (cases n) (simp add: PruneFor_node Let_def split: if_splits)


lemma add1': "Add [] pickupStick = ([(Stick, [pickupStick])], None)"
proof -
  have "Validate pickupStick = None" by code_simp
  moreover have "\<not> same_signature [] pickupStick" by code_simp
  moreover have "IsDAG (inserted [] pickupStick)" by code_simp
  moreover have "inserted [] pickupStick = [(Stick, [pickupStick])]"
    by (simp add: inserted_def bucket_def OutputType_examples)
  ultimately show ?thesis by (simp add: Add_accepts)
qed

lemma add2': "Add [(Stick, [pickupStick])] chiselStone = (productions2', None)"
proof -
  have "Validate chiselStone = None" by code_simp
  moreover have "\<not> same_signature [(Stick, [pickupStick])] chiselStone" by code_simp
  moreover have "IsDAG (inserted [(Stick, [pickupStick])] chiselStone)" by code_simp
  moreover have "inserted [(Stick, [pickupStick])] chiselStone = productions2'"
    by (simp add: inserted_def productions2'_def bucket_def OutputType_examples example_types)
  ultimately show ?thesis by (simp add: Add_accepts)
qed

lemma type_check_iff:
  "length ins = length inputs \<Longrightarrow>
   list_ex (\<lambda>i. ins ! i \<noteq> Type (inputs ! i)) [0..<length ins] \<longleftrightarrow> map Type inputs \<noteq> ins"
proof -
  assume l: "length ins = length inputs"
  have "map Type inputs = ins \<longleftrightarrow> (\<forall>i < length ins. Type (inputs ! i) = ins ! i)"
    using l by (auto simp: list_eq_iff_nth_eq [of "map Type inputs" ins])
  moreover have "list_ex (\<lambda>i. ins ! i \<noteq> Type (inputs ! i)) [0..<length ins] \<longleftrightarrow>
      (\<exists>i < length ins. ins ! i \<noteq> Type (inputs ! i))"
    by (force simp: list_ex_iff)
  ultimately show ?thesis by metis
qed

section \<open>The tree builder\<close>

lemma MissingInputs_filter: "MissingInputs r S = filter (\<lambda>t. t \<notin> set S) (InputTypes r)"
proof -
  have "list_ex (\<lambda>t. t = w) S \<longleftrightarrow> w \<in> set S" for w by (auto simp: list_ex_iff)
  then show ?thesis by (simp add: MissingInputs_def)
qed

lemma MissingInputs_empty_iff: "MissingInputs r S = [] \<longleftrightarrow> set (InputTypes r) \<subseteq> set S"
  by (auto simp: MissingInputs_filter filter_empty_conv)

lemma eligible_code:
  "eligible inputs r \<longleftrightarrow>
     \<not> list_ex (\<lambda>input. OutputType r = input) inputs \<and> \<not> length (MissingInputs r inputs) > 0"
  by (auto simp: eligible_def list_ex_iff MissingInputs_empty_iff)

lemma List_subset: "r \<in> set (List keys pm) \<Longrightarrow> r \<in> set (producers pm)"
proof -
  assume "r \<in> set (List keys pm)"
  then obtain t where "r \<in> set (bucket pm t)" by (auto simp: List_buckets)
  then show ?thesis by (auto simp: producers_member)
qed

lemma mset_concat_map:
  "mset keys = mset keys' \<Longrightarrow> mset (concat (map f keys)) = mset (concat (map f keys'))"
proof -
  have "mset (concat (map f xs)) = (\<Sum>x \<in># mset xs. mset (f x))" for xs
    by (induction xs) simp_all
  then show "mset keys = mset keys' \<Longrightarrow> ?thesis" by simp
qed

lemma ranges_over_List:
  "ranges_over pm ord \<Longrightarrow> mset (List (ord path) pm) = mset (producers pm)"
  unfolding producers_def List_def by (rule mset_concat_map) (simp add: ranges_over_def)

lemma ranges_over_in_map_order: "ranges_over pm (in_map_order pm)"
  by (simp add: ranges_over_def in_map_order_def)

lemma listed_producer:
  "(j, r) \<in> set (enumerate 0 (List keys pm)) \<Longrightarrow> r \<in> set (producers pm)"
proof -
  assume "(j, r) \<in> set (enumerate 0 (List keys pm))"
  then have "r \<in> set (List keys pm)" by (auto simp: in_set_enumerate_eq)
  then show ?thesis by (rule List_subset)
qed

lemma map_filter_snd:
  "map (\<lambda>jr. f (snd jr)) (filter (\<lambda>jr. P (snd jr)) xs) = map f (filter P (map snd xs))"
  by (induction xs) simp_all

lemma map_snd_enumerate: "map snd (enumerate n xs) = xs"
  by (simp add: enumerate_eq_zip)

lemma BuildPossibilityTree_children:
  "BuildPossibilityTree ord path pm root inputs =
     PossibilityNode (Resolver root) (Inputs root)
       (NextSteps root @
        map (\<lambda>jr. BuildPossibilityTree ord (path @ [fst jr]) pm
                     (PossibilityNode (Some (snd jr)) inputs []) (inputs @ [OutputType (snd jr)]))
            (filter (\<lambda>jr. eligible inputs (snd jr)) (enumerate 0 (List (ord path) pm))))"
proof -
  have body: "(\<lambda>root (j, r).
        if list_ex (\<lambda>input. OutputType r = input) inputs then root
        else
          let mi = MissingInputs r inputs in
          if length mi > 0 then root
          else
            let inputsPersist = inputs;
                pn = PossibilityNode (Some r) inputsPersist [];
                inputsNext = inputs @ [OutputType r];
                pn' = BuildPossibilityTree ord (path @ [j]) pm pn inputsNext
            in PossibilityNode (Resolver root) (Inputs root) (NextSteps root @ [pn'])) =
      (\<lambda>root jr.
        if \<not> eligible inputs (snd jr) then root
        else PossibilityNode (Resolver root) (Inputs root)
               (NextSteps root @
                [BuildPossibilityTree ord (path @ [fst jr]) pm
                   (PossibilityNode (Some (snd jr)) inputs []) (inputs @ [OutputType (snd jr)])]))"
    by (intro ext) (simp add: eligible_code Let_def split: prod.splits)
  show ?thesis
    by (subst BuildPossibilityTree.simps, subst body, subst foldl_append_children) simp
qed

lemma BuildPossibilityTree_induct [case_names step]:
  assumes "\<And>ord path pm root inputs.
     (\<And>j r. (j, r) \<in> set (enumerate 0 (List (ord path) pm)) \<Longrightarrow> eligible inputs r \<Longrightarrow>
        P ord (path @ [j]) pm (PossibilityNode (Some r) inputs []) (inputs @ [OutputType r])) \<Longrightarrow>
     P ord path pm root inputs"
  shows "P ord path pm root inputs"
proof (induction ord path pm root inputs rule: BuildPossibilityTree.induct)
  case (1 ord path pm root inputs)
  show ?case
  proof (rule assms)
    fix j r assume "(j, r) \<in> set (enumerate 0 (List (ord path) pm))" "eligible inputs r"
    then show "P ord (path @ [j]) pm (PossibilityNode (Some r) inputs []) (inputs @ [OutputType r])"
      by (intro "1.IH" [of "(j, r)" j r "MissingInputs r inputs" inputs
            "PossibilityNode (Some r) inputs []"])
         (simp_all add: eligible_code)
  qed
qed

lemma BuildPossibilityTree_sel:
  "Resolver (BuildPossibilityTree ord path pm root inputs) = Resolver root"
  "Inputs (BuildPossibilityTree ord path pm root inputs) = Inputs root"
  by (subst BuildPossibilityTree_children, simp)+

lemma BuildPossibilityTree_NextSteps:
  "NextSteps (BuildPossibilityTree ord path pm root inputs) =
     NextSteps root @
     map (\<lambda>jr. BuildPossibilityTree ord (path @ [fst jr]) pm
                  (PossibilityNode (Some (snd jr)) inputs []) (inputs @ [OutputType (snd jr)]))
         (filter (\<lambda>jr. eligible inputs (snd jr)) (enumerate 0 (List (ord path) pm)))"
  by (subst BuildPossibilityTree_children) simp

lemma nodes_BuildPossibilityTree:
  assumes "NextSteps root = []"
  shows "m \<in> set (nodes (BuildPossibilityTree ord path pm root inputs)) \<longleftrightarrow>
     m = BuildPossibilityTree ord path pm root inputs \<or>
     (\<exists>j r. (j, r) \<in> set (enumerate 0 (List (ord path) pm)) \<and> eligible inputs r \<and>
        m \<in> set (nodes (BuildPossibilityTree ord (path @ [j]) pm
                           (PossibilityNode (Some r) inputs []) (inputs @ [OutputType r]))))"
  unfolding nodes_cases [of m "BuildPossibilityTree ord path pm root inputs"]
    BuildPossibilityTree_NextSteps assms
  by force

lemma Resolver_children:
  assumes "NextSteps root = []"
  shows "map Resolver (NextSteps (BuildPossibilityTree ord path pm root inputs)) =
     map Some (filter (eligible inputs) (List (ord path) pm))"
proof -
  have "map Resolver (NextSteps (BuildPossibilityTree ord path pm root inputs)) =
      map (\<lambda>jr. Some (snd jr))
        (filter (\<lambda>jr. eligible inputs (snd jr)) (enumerate 0 (List (ord path) pm)))"
    by (simp add: BuildPossibilityTree_NextSteps assms BuildPossibilityTree_sel comp_def)
  also have "\<dots> = map Some (filter (eligible inputs) (map snd (enumerate 0 (List (ord path) pm))))"
    by (rule map_filter_snd)
  finally show ?thesis by (simp only: map_snd_enumerate)
qed

lemma Inputs_children:
  assumes "NextSteps root = []" "c \<in> set (NextSteps (BuildPossibilityTree ord path pm root inputs))"
  shows "Inputs c = inputs"
  using assms(2) by (auto simp: BuildPossibilityTree_NextSteps assms(1) BuildPossibilityTree_sel)

lemma listed_child:
  assumes "NextSteps root = []"
  shows "c \<in> set (NextSteps (BuildPossibilityTree ord path pm root inputs)) \<longleftrightarrow>
     (\<exists>j r. (j, r) \<in> set (enumerate 0 (List (ord path) pm)) \<and> eligible inputs r \<and>
        c = BuildPossibilityTree ord (path @ [j]) pm
              (PossibilityNode (Some r) inputs []) (inputs @ [OutputType r]))"
  unfolding BuildPossibilityTree_NextSteps assms by force

lemma built_nodes_not_available:
  "NextSteps root = [] \<Longrightarrow> t \<in> set inputs \<Longrightarrow>
   m \<in> set (nodes (BuildPossibilityTree ord path pm root inputs)) \<Longrightarrow> applies t m \<Longrightarrow>
   applies t root"
proof (induction ord path pm root inputs arbitrary: m rule: BuildPossibilityTree_induct)
  case (step ord path pm root inputs)
  from step.prems(3) consider
      "Resolver m = Resolver root"
    | j r where "(j, r) \<in> set (enumerate 0 (List (ord path) pm))" "eligible inputs r"
        "m \<in> set (nodes (BuildPossibilityTree ord (path @ [j]) pm
                           (PossibilityNode (Some r) inputs []) (inputs @ [OutputType r])))"
    unfolding nodes_BuildPossibilityTree [OF step.prems(1)]
    by (auto simp: BuildPossibilityTree_sel)
  then show ?case
  proof cases
    case 1
    with step.prems(4) show ?thesis by (simp add: applies_def)
  next
    case 2
    from step.IH [OF 2(1,2) _ _ 2(3) step.prems(4)] step.prems(2)
    have "applies t (PossibilityNode (Some r) inputs [])" by simp
    with 2(2) step.prems(2) show ?thesis by (simp add: applies_def eligible_def)
  qed
qed

lemma available_target_unreachable:
  fixes pm :: "'a ProductionMap"
  assumes "target \<in> set inputs"
  shows "snd (PruneFor (PossibilityTree ord pm inputs) target) = Some TargetUnreachable"
proof -
  let ?root = "PossibilityNode None [] [] :: 'a PossibilityNode"
  have "\<not> applies target m" if "m \<in> set (nodes (PossibilityTree ord pm inputs))" for m
  proof
    assume "applies target m"
    moreover have "NextSteps ?root = []" by simp
    moreover note that [unfolded PossibilityTree_def] assms
    ultimately have "applies target ?root"
      using built_nodes_not_available by blast
    then show False by (simp add: applies_def)
  qed
  then show ?thesis by (simp add: PruneFor_fails_iff list_ex_iff)
qed

lemma mset_map_filter:
  "mset xs = mset ys \<Longrightarrow> mset (map f (filter P xs)) = mset (map f (filter P ys))"
proof -
  have "mset (map f (filter P zs)) = image_mset f (filter_mset P (mset zs))" for zs
    by simp
  then show "mset xs = mset ys \<Longrightarrow> ?thesis" by simp
qed

lemma BuildPossibilityTree_expands:
  assumes "ranges_over pm ord" "NextSteps root = []"
  shows "expands pm inputs (BuildPossibilityTree ord path pm root inputs)"
proof -
  have "mset (map Resolver (NextSteps (BuildPossibilityTree ord path pm root inputs))) =
      mset (map Some (filter (eligible inputs) (List (ord path) pm)))"
    by (simp only: Resolver_children [OF assms(2)])
  also have "\<dots> = mset (map Some (filter (eligible inputs) (producers pm)))"
    by (rule mset_map_filter) (rule ranges_over_List [OF assms(1)])
  finally show ?thesis
    using Inputs_children [OF assms(2)] by (auto simp: expands_def list_all_iff)
qed

lemma built_nodes_expand:
  "ranges_over pm ord \<Longrightarrow>
   root = PossibilityNode (Some r0) ins0 [] \<Longrightarrow> inputs = ins0 @ [OutputType r0] \<Longrightarrow>
   m \<in> set (nodes (BuildPossibilityTree ord path pm root inputs)) \<Longrightarrow>
   \<exists>r. Resolver m = Some r \<and> expands pm (Inputs m @ [OutputType r]) m"
proof (induction ord path pm root inputs arbitrary: m r0 ins0 rule: BuildPossibilityTree_induct)
  case (step ord path pm root inputs)
  have root: "NextSteps root = []" using step.prems(2) by simp
  from step.prems(4) consider
      "m = BuildPossibilityTree ord path pm root inputs"
    | j r where "(j, r) \<in> set (enumerate 0 (List (ord path) pm))" "eligible inputs r"
        "m \<in> set (nodes (BuildPossibilityTree ord (path @ [j]) pm
                           (PossibilityNode (Some r) inputs []) (inputs @ [OutputType r])))"
    unfolding nodes_BuildPossibilityTree [OF root] by auto
  then show ?case
  proof cases
    case 1
    then have "Resolver m = Some r0" "Inputs m = ins0"
      using step.prems(2) by (simp_all add: BuildPossibilityTree_sel)
    moreover have "expands pm inputs m"
      unfolding 1 using step.prems(1) root by (rule BuildPossibilityTree_expands)
    ultimately show ?thesis using step.prems(3) by simp
  next
    case 2
    show ?thesis by (rule step.IH [OF 2(1,2) step.prems(1) refl refl 2(3)])
  qed
qed

lemma PossibilityTree_nodes_expand:
  assumes "ranges_over pm ord" "n \<in> set (nodes (PossibilityTree ord pm start))"
  shows "expands pm (available start n) n"
proof -
  from assms(2) consider "n = PossibilityTree ord pm start"
    | j r where "n \<in> set (nodes (BuildPossibilityTree ord ([] @ [j]) pm
                           (PossibilityNode (Some r) start []) (start @ [OutputType r])))"
    unfolding PossibilityTree_def
    by (subst (asm) nodes_BuildPossibilityTree) auto
  then show ?thesis
  proof cases
    case 1
    have "Resolver n = None" unfolding 1 PossibilityTree_def by (simp add: BuildPossibilityTree_sel)
    moreover have "expands pm start n"
      unfolding 1 PossibilityTree_def by (rule BuildPossibilityTree_expands [OF assms(1)]) simp
    ultimately show ?thesis by (simp add: available_def)
  next
    case 2
    from built_nodes_expand [OF assms(1) refl refl 2] show ?thesis by (auto simp: available_def)
  qed
qed

section \<open>The count of a built tree\<close>

lemma Count_built:
  assumes "NextSteps root = []"
  shows "Count (BuildPossibilityTree ord path pm root inputs) =
     1 + sum_list (map (\<lambda>jr. Count (BuildPossibilityTree ord (path @ [fst jr]) pm
                               (PossibilityNode (Some (snd jr)) inputs [])
                               (inputs @ [OutputType (snd jr)])))
            (filter (\<lambda>jr. eligible inputs (snd jr)) (enumerate 0 (List (ord path) pm))))"
  by (subst BuildPossibilityTree_children) (simp add: Count_node assms comp_def del: Count.simps)

lemma eligible_set: "set S = set S' \<Longrightarrow> eligible S r = eligible S' r"
  by (simp add: eligible_def)

lemma sum_list_listed:
  assumes "\<And>j r. (j, r) \<in> set (enumerate 0 xs) \<Longrightarrow> P r \<Longrightarrow> f (j, r) = h r"
  shows "sum_list (map f (filter (\<lambda>jr. P (snd jr)) (enumerate 0 xs))) =
     sum_mset (image_mset h (filter_mset P (mset xs)))"
proof -
  have "map f (filter (\<lambda>jr. P (snd jr)) (enumerate 0 xs)) =
      map (\<lambda>jr. h (snd jr)) (filter (\<lambda>jr. P (snd jr)) (enumerate 0 xs))"
    using assms by (intro map_cong refl) auto
  also have "\<dots> = map h (filter P (map snd (enumerate 0 xs)))" by (rule map_filter_snd)
  finally have "map f (filter (\<lambda>jr. P (snd jr)) (enumerate 0 xs)) = map h (filter P xs)"
    by (simp only: map_snd_enumerate)
  then show ?thesis by (simp only: sum_list_filter_mset)
qed

lemma listed_index: "r \<in> set xs \<Longrightarrow> \<exists>j. (j, r) \<in> set (enumerate 0 xs)"
proof -
  assume "r \<in> set xs"
  then obtain i where "i < length xs" "xs ! i = r" by (auto simp: in_set_conv_nth)
  then have "(i, r) \<in> set (enumerate 0 xs)" by (simp add: in_set_enumerate_eq)
  then show ?thesis ..
qed

lemma Count_contents:
  "ranges_over pm ord \<Longrightarrow> ranges_over pm' ord' \<Longrightarrow>
   mset (producers pm) = mset (producers pm') \<Longrightarrow> NextSteps root = [] \<Longrightarrow> NextSteps root' = [] \<Longrightarrow>
   set inputs = set inputs' \<Longrightarrow>
   Count (BuildPossibilityTree ord path pm root inputs) =
   Count (BuildPossibilityTree ord' path' pm' root' inputs')"
proof (induction ord path pm root inputs arbitrary: ord' path' pm' root' inputs'
    rule: BuildPossibilityTree_induct)
  case (step ord path pm root inputs)
  let ?f = "\<lambda>jr. Count (BuildPossibilityTree ord (path @ [fst jr]) pm
                     (PossibilityNode (Some (snd jr)) inputs []) (inputs @ [OutputType (snd jr)]))"
  let ?g = "\<lambda>jr. Count (BuildPossibilityTree ord' (path' @ [fst jr]) pm'
                     (PossibilityNode (Some (snd jr)) inputs' []) (inputs' @ [OutputType (snd jr)]))"
  let ?h = "\<lambda>r. Count (BuildPossibilityTree ord' path' pm'
                     (PossibilityNode (Some r) inputs' []) (inputs' @ [OutputType r]))"
  have el: "eligible inputs = eligible inputs'"
    using eligible_set [OF step.prems(6)] by (intro ext)
  have ih: "?f (j, r) = Count (BuildPossibilityTree ord' p pm'
                     (PossibilityNode (Some r) inputs' []) (inputs' @ [OutputType r]))"
    if "(j, r) \<in> set (enumerate 0 (List (ord path) pm))" "eligible inputs r" for j r p
    unfolding fst_conv snd_conv
  proof (rule step.IH [OF that step.prems(1,2,3)])
    show "NextSteps (PossibilityNode (Some r) inputs []) = []" by simp
    show "NextSteps (PossibilityNode (Some r) inputs' []) = []" by simp
    show "set (inputs @ [OutputType r]) = set (inputs' @ [OutputType r])"
      by (simp add: step.prems(6))
  qed
  have l: "mset (List (ord path) pm) = mset (producers pm)"
    by (rule ranges_over_List [OF step.prems(1)])
  have l': "mset (List (ord' path') pm') = mset (producers pm)"
    by (simp only: ranges_over_List [OF step.prems(2)] step.prems(3))
  have fh: "?f (j, r) = ?h r"
    if "(j, r) \<in> set (enumerate 0 (List (ord path) pm))" "eligible inputs r" for j r
    using that by (rule ih)
  have gh: "?g (j, r) = ?h r"
    if "(j, r) \<in> set (enumerate 0 (List (ord' path') pm'))" "eligible inputs r" for j r
  proof -
    from that(1) have "r \<in> set (List (ord' path') pm')" by (auto simp: in_set_enumerate_eq)
    then have "r \<in># mset (List (ord' path') pm')" by simp
    then have "r \<in># mset (List (ord path) pm)" by (simp only: l l')
    then have "r \<in> set (List (ord path) pm)" by simp
    from listed_index [OF this]
    obtain j0 where j0: "(j0, r) \<in> set (enumerate 0 (List (ord path) pm))" ..
    from ih [OF j0 that(2), of "path' @ [j]"]
    have a: "?f (j0, r) = ?g (j, r)" by (simp only: fst_conv snd_conv)
    from ih [OF j0 that(2), of path']
    have b: "?f (j0, r) = ?h r" .
    from a [symmetric] b show ?thesis by (rule trans)
  qed
  let ?L = "sum_list (map ?f (filter (\<lambda>jr. eligible inputs (snd jr))
                                (enumerate 0 (List (ord path) pm))))"
  let ?R = "sum_list (map ?g (filter (\<lambda>jr. eligible inputs (snd jr))
                                (enumerate 0 (List (ord' path') pm'))))"
  have "?L = sum_mset (image_mset ?h (filter_mset (eligible inputs) (mset (List (ord path) pm))))"
    by (rule sum_list_listed [where P = "eligible inputs" and h = ?h]) (rule fh)
  moreover have "?R = sum_mset (image_mset ?h (filter_mset (eligible inputs) (mset (List (ord' path') pm'))))"
    by (rule sum_list_listed [where P = "eligible inputs" and h = ?h]) (rule gh)
  ultimately have s: "?L = ?R" by (simp only: l l')
  have c1: "Count (BuildPossibilityTree ord path pm root inputs) = 1 + ?L"
    by (rule Count_built [OF step.prems(4)])
  have c2: "Count (BuildPossibilityTree ord' path' pm' root' inputs') = 1 + ?R"
    unfolding el by (rule Count_built [OF step.prems(5)])
  show ?case unfolding c1 c2 by (simp only: s)
qed

lemma Count_PossibilityTree_contents:
  "ranges_over pm ord \<Longrightarrow> ranges_over pm' ord' \<Longrightarrow> mset (producers pm) = mset (producers pm') \<Longrightarrow>
   Count (PossibilityTree ord pm start) = Count (PossibilityTree ord' pm' start)"
  unfolding PossibilityTree_def by (rule Count_contents) simp_all

section \<open>The depth of a built tree\<close>

lemma eligible_output: "r \<in> set (producers pm) \<Longrightarrow> eligible A r \<Longrightarrow>
    OutputType r \<in> outputs pm \<and> OutputType r \<notin> set A"
  by (simp add: eligible_def outputs_def)

lemma Depth_upper:
  "NextSteps root = [] \<Longrightarrow>
   Depth (BuildPossibilityTree ord path pm root inputs) \<le> card (outputs pm - set inputs)"
proof (induction ord path pm root inputs rule: BuildPossibilityTree_induct)
  case (step ord path pm root inputs)
  show ?case
    unfolding Depth_le_iff [of "BuildPossibilityTree ord path pm root inputs"]
  proof
    fix c assume "c \<in> set (NextSteps (BuildPossibilityTree ord path pm root inputs))"
    then obtain j r where r: "(j, r) \<in> set (enumerate 0 (List (ord path) pm))" "eligible inputs r"
      and c: "c = BuildPossibilityTree ord (path @ [j]) pm (PossibilityNode (Some r) inputs [])
                    (inputs @ [OutputType r])"
      unfolding listed_child [OF step.prems] by blast
    have "Depth c \<le> card (outputs pm - set (inputs @ [OutputType r]))"
      unfolding c by (rule step.IH [OF r]) simp
    moreover from eligible_output [OF listed_producer [OF r(1)] r(2)]
    have "card (outputs pm - set inputs) = Suc (card (outputs pm - set (inputs @ [OutputType r])))"
      by (intro card_outputs_step) simp_all
    ultimately show "Suc (Depth c) \<le> card (outputs pm - set inputs)" by simp
  qed
qed

lemma Depth_lower:
  "ranges_over pm ord \<Longrightarrow> NextSteps root = [] \<Longrightarrow> acyclic (edges pm) \<Longrightarrow>
   (\<forall>r \<in> set (producers pm). \<forall>i \<in> set (InputTypes r). i \<in> outputs pm \<or> i \<in> set A) \<Longrightarrow>
   card (outputs pm - set A) \<le> Depth (BuildPossibilityTree ord path pm root A)"
proof (induction ord path pm root A rule: BuildPossibilityTree_induct)
  case (step ord path pm root A)
  show ?case
  proof (cases "outputs pm - set A = {}")
    case True
    then have "card (outputs pm - set A) = 0" by (simp only: card.empty)
    then show ?thesis by simp
  next
    case False
    then obtain x where x: "x \<in> outputs pm - set A" by blast
    from step.prems(3) have "wf (edges pm)" by (simp add: finite_acyclic_wf finite_edges)
    from wfE_min [OF this x] obtain z where z: "z \<in> outputs pm - set A"
      and zmin: "\<And>y. (y, z) \<in> edges pm \<Longrightarrow> y \<notin> outputs pm - set A" by blast
    from z obtain r where r: "r \<in> set (producers pm)" and o: "OutputType r = z"
      by (auto simp: outputs_def)
    have "i \<in> set A" if "i \<in> set (InputTypes r)" for i
    proof -
      from that r o have "(i, z) \<in> edges pm" by (auto simp: edges_iff)
      then have "i \<notin> outputs pm - set A" by (rule zmin)
      with step.prems(4) r that show ?thesis by blast
    qed
    with z o have e: "eligible A r"
      by (auto simp: eligible_def)
    from r have "r \<in># mset (producers pm)" by simp
    then have "r \<in># mset (List (ord path) pm)"
      by (simp only: ranges_over_List [OF step.prems(1)])
    then have "r \<in> set (List (ord path) pm)" by simp
    from listed_index [OF this]
    obtain j where j: "(j, r) \<in> set (enumerate 0 (List (ord path) pm))" ..
    let ?c = "BuildPossibilityTree ord (path @ [j]) pm (PossibilityNode (Some r) A [])
                (A @ [OutputType r])"
    have "card (outputs pm - set (A @ [OutputType r])) \<le> Depth ?c"
    proof (rule step.IH [OF j e step.prems(1) _ step.prems(3)])
      show "NextSteps (PossibilityNode (Some r) A []) = []" by simp
      show "\<forall>r' \<in> set (producers pm). \<forall>i \<in> set (InputTypes r').
              i \<in> outputs pm \<or> i \<in> set (A @ [OutputType r])"
        using step.prems(4) by auto
    qed
    moreover from z o have "card (outputs pm - set A) = Suc (card (outputs pm - set (A @ [OutputType r])))"
      by (intro card_outputs_step) simp_all
    moreover have "?c \<in> set (NextSteps (BuildPossibilityTree ord path pm root A))"
      unfolding listed_child [OF step.prems(2)] using j e by blast
    then have "Suc (Depth ?c) \<le> Depth (BuildPossibilityTree ord path pm root A)" by (rule Depth_child)
    ultimately show ?thesis by simp
  qed
qed

lemma Depth_bound: "Depth (PossibilityTree ord pm start) \<le> card (outputs pm - set start)"
  unfolding PossibilityTree_def by (rule Depth_upper) simp

lemma Depth_attained:
  assumes "registry_inv pm" "ranges_over pm ord"
  shows "Depth (PossibilityTree ord pm (raw_inputs pm)) = card (outputs pm)"
proof -
  from assms have "well_keyed pm" "IsDAG pm" by (simp_all add: registry_inv_def)
  then have "acyclic (edges pm)" by (simp add: IsDAG_edges)
  then have "card (outputs pm - set (raw_inputs pm)) \<le> Depth (PossibilityTree ord pm (raw_inputs pm))"
    unfolding PossibilityTree_def
    by (intro Depth_lower raw_inputs_cover assms(2)) simp_all
  with Depth_bound [of ord pm "raw_inputs pm"] show ?thesis
    by (simp add: raw_inputs_no_output)
qed

lemma BuildPossibilityTree_total: "BuildPossibilityTree_dom (ord, path, pm, root, inputs)"
proof (induction "card (outputs pm - set inputs)" arbitrary: path root inputs rule: less_induct)
  case less
  show ?case
  proof (rule BuildPossibilityTree.domintros)
    fix j r
    assume a: "(j, r) \<in> set (enumerate 0 (List (ord path) pm))"
      "\<not> list_ex ((=) (OutputType r)) inputs"
    from listed_producer [OF a(1)] a(2)
    have "OutputType r \<in> outputs pm" "OutputType r \<notin> set inputs"
      by (auto simp: outputs_def list_ex_iff)
    then have "card (outputs pm - set inputs) =
        Suc (card (outputs pm - set (inputs @ [OutputType r])))"
      by (rule card_outputs_step)
    then have "card (outputs pm - set (inputs @ [OutputType r])) < card (outputs pm - set inputs)"
      by simp
    then show "BuildPossibilityTree_dom
        (ord, path @ [j], pm, PossibilityNode (Some r) inputs [], inputs @ [OutputType r])"
      by (rule less)
  qed
qed

section \<open>Trees and invocations of the scenario\<close>

lemma count1: "Count (PossibilityTree (in_map_order productions1) productions1 [Boulder, Tree]) = 2"
  by code_simp

lemma count2: "Count (PossibilityTree (in_map_order productions2) productions2 [Boulder, Tree]) = 5"
  by code_simp

lemma count3: "Count (PossibilityTree (in_map_order productions3) productions3 [Boulder, Tree]) = 7"
  by code_simp

lemma count4: "Count (PossibilityTree (in_map_order productions4) productions4 [Boulder, Tree]) = 13"
  by code_simp

lemma ranges_over_alternating: "ranges_over pm (alternating pm)"
  by (simp add: ranges_over_def alternating_def)

lemma built_nodes_calls:
  "NextSteps root = [] \<Longrightarrow> m \<in> set (nodes (BuildPossibilityTree ord path pm root inputs)) \<Longrightarrow>
   m = BuildPossibilityTree ord path pm root inputs \<or>
   (\<exists>p r ins. m = BuildPossibilityTree ord p pm (PossibilityNode (Some r) ins [])
                      (ins @ [OutputType r]))"
proof (induction ord path pm root inputs arbitrary: m rule: BuildPossibilityTree_induct)
  case (step ord path pm root inputs)
  from step.prems(2) consider
      "m = BuildPossibilityTree ord path pm root inputs"
    | j r where "(j, r) \<in> set (enumerate 0 (List (ord path) pm))" "eligible inputs r"
        "m \<in> set (nodes (BuildPossibilityTree ord (path @ [j]) pm
                           (PossibilityNode (Some r) inputs []) (inputs @ [OutputType r])))"
    unfolding nodes_BuildPossibilityTree [OF step.prems(1)] by auto
  then show ?case
  proof cases
    case 1
    then show ?thesis by (rule disjI1)
  next
    case 2
    from step.IH [OF 2(1,2) _ 2(3)]
    have "m = BuildPossibilityTree ord (path @ [j]) pm (PossibilityNode (Some r) inputs [])
                (inputs @ [OutputType r]) \<or>
          (\<exists>p r ins. m = BuildPossibilityTree ord p pm (PossibilityNode (Some r) ins [])
                      (ins @ [OutputType r]))"
      by simp
    then show ?thesis by blast
  qed
qed

lemma tree_nodes_calls:
  fixes pm :: "'a ProductionMap"
  assumes "n \<in> set (nodes (PossibilityTree ord pm start))"
  shows "\<exists>p root. NextSteps root = [] \<and>
           n = BuildPossibilityTree ord p pm root (available start n)"
proof -
  let ?root = "PossibilityNode None [] [] :: 'a PossibilityNode"
  have "NextSteps ?root = []" by simp
  from built_nodes_calls [OF this assms [unfolded PossibilityTree_def]]
  show ?thesis
  proof (elim disjE exE)
    assume n: "n = BuildPossibilityTree ord [] pm ?root start"
    then have "Resolver n = None" by (simp add: BuildPossibilityTree_sel)
    then have "available start n = start" by (simp add: available_def)
    with n have "NextSteps ?root = [] \<and> n = BuildPossibilityTree ord [] pm ?root (available start n)"
      by simp
    then show ?thesis by blast
  next
    fix p r ins
    assume n: "n = BuildPossibilityTree ord p pm (PossibilityNode (Some r) ins [])
                    (ins @ [OutputType r])"
    then have "Resolver n = Some r" "Inputs n = ins" by (simp_all add: BuildPossibilityTree_sel)
    then have "available start n = ins @ [OutputType r]" by (simp add: available_def)
    with n have "NextSteps (PossibilityNode (Some r) ins []) = [] \<and>
        n = BuildPossibilityTree ord p pm (PossibilityNode (Some r) ins []) (available start n)"
      by simp
    then show ?thesis by blast
  qed
qed

lemma child_grows:
  assumes "n \<in> set (nodes (PossibilityTree ord pm start))" "c \<in> set (NextSteps n)"
  shows "set (available start n) \<subset> set (available start c)"
proof -
  let ?S = "available start n"
  from tree_nodes_calls [OF assms(1)] obtain p root where root: "NextSteps root = []"
    and n: "n = BuildPossibilityTree ord p pm root ?S" by blast
  from assms(2) have "c \<in> set (NextSteps (BuildPossibilityTree ord p pm root ?S))"
    by (simp only: n [symmetric])
  then obtain j r where r: "eligible ?S r"
    and c: "c = BuildPossibilityTree ord (p @ [j]) pm (PossibilityNode (Some r) ?S [])
                  (?S @ [OutputType r])"
    unfolding listed_child [OF root] by blast
  from c have "Resolver c = Some r" "Inputs c = ?S" by (simp_all add: BuildPossibilityTree_sel)
  then have "available start c = ?S @ [OutputType r]" by (simp add: available_def)
  moreover from r have "OutputType r \<notin> set ?S" by (simp add: eligible_def)
  ultimately show ?thesis by auto
qed

lemma children_eligible:
  assumes "mset (map Resolver (NextSteps n)) = mset (map Some (filter (eligible S) (producers pm)))"
  shows "(\<exists>c \<in> set (NextSteps n). Resolver c = Some r) \<longleftrightarrow> r \<in> set (producers pm) \<and> eligible S r"
proof -
  have "(\<exists>c \<in> set (NextSteps n). Resolver c = Some r) \<longleftrightarrow>
        Some r \<in> set (map Resolver (NextSteps n))"
    by force
  also have "\<dots> \<longleftrightarrow> Some r \<in> set_mset (mset (map Resolver (NextSteps n)))"
    by (simp only: set_mset_mset)
  also have "\<dots> \<longleftrightarrow> Some r \<in> set_mset (mset (map Some (filter (eligible S) (producers pm))))"
    by (simp only: assms)
  also have "\<dots> \<longleftrightarrow> r \<in> set (producers pm) \<and> eligible S r"
    by auto
  finally show ?thesis .
qed

lemma count_any:
  assumes "ranges_over pm ord"
  shows "Count (PossibilityTree ord pm start) = Count (PossibilityTree (in_map_order pm) pm start)"
  using assms ranges_over_in_map_order refl by (rule Count_PossibilityTree_contents)

lemma Resolve_outcomes:
  assumes "rType r = Func ins variadic (outputType # outs)"
  shows "(length inputs \<noteq> length ins \<longrightarrow> Resolve r inputs = Return None (Some ArityMismatch)) \<and>
         (length inputs = length ins \<and> (\<exists>i < length ins. Type (inputs ! i) \<noteq> ins ! i) \<longrightarrow>
            Resolve r inputs = Return None (Some TypeMismatch)) \<and>
         (map Type inputs = ins \<and> Call_panics (rType r) \<longrightarrow> Resolve r inputs = Panic) \<and>
         (map Type inputs = ins \<and> \<not> Call_panics (rType r) \<and>
          Call (ResolverFunc r) inputs = [ov, ev] \<and> Type ov \<noteq> outputType \<longrightarrow>
            Resolve r inputs = Return None (Some OutputTypeMismatch)) \<and>
         (map Type inputs = ins \<and> \<not> Call_panics (rType r) \<and>
          Call (ResolverFunc r) inputs = [ov, ev] \<and> Type ov = outputType \<and>
          Implements_error (Type ev) \<longrightarrow>
            Resolve r inputs =
              (case IsNil ev of
                 None \<Rightarrow> Panic
               | Some True \<Rightarrow> Return (Some ov) None
               | Some False \<Rightarrow> Return (Some ov) (Some (ProducerFailure (Interface ev)))))"
proof -
  have f: "is_Func (rType r)" "NumIn (rType r) = length ins" "type_ins (rType r) = ins"
    "OutputType_opt r = Some outputType"
    by (simp_all add: assms NumIn_def OutputType_opt_def)
  have 1: "Resolve r inputs = Return None (Some ArityMismatch)" if "length inputs \<noteq> length ins"
    using that by (simp add: Resolve_def f)
  have 2: "Resolve r inputs = Return None (Some TypeMismatch)"
    if "length inputs = length ins \<and> (\<exists>i < length ins. Type (inputs ! i) \<noteq> ins ! i)"
  proof -
    from that have "list_ex (\<lambda>i. ins ! i \<noteq> Type (inputs ! i)) [0..<length ins]"
      by (force simp: list_ex_iff)
    with that show ?thesis by (simp add: Resolve_def f)
  qed
  have ok: "length ins = length inputs"
    "\<not> list_ex (\<lambda>i. ins ! i \<noteq> Type (inputs ! i)) [0..<length ins]"
    if "map Type inputs = ins"
    using that type_check_iff [of ins inputs] by auto
  have 3: "Resolve r inputs = Panic" if "map Type inputs = ins \<and> Call_panics (rType r)"
    using that ok by (simp add: Resolve_def f)
  have 4: "Resolve r inputs = Return None (Some OutputTypeMismatch)"
    if "map Type inputs = ins \<and> \<not> Call_panics (rType r) \<and>
        Call (ResolverFunc r) inputs = [ov, ev] \<and> Type ov \<noteq> outputType"
    using that ok by (simp add: Resolve_def f)
  have 5: "Resolve r inputs =
      (case IsNil ev of
         None \<Rightarrow> Panic
       | Some True \<Rightarrow> Return (Some ov) None
       | Some False \<Rightarrow> Return (Some ov) (Some (ProducerFailure (Interface ev))))"
    if "map Type inputs = ins \<and> \<not> Call_panics (rType r) \<and>
        Call (ResolverFunc r) inputs = [ov, ev] \<and> Type ov = outputType \<and>
        Implements_error (Type ev)"
    using that ok by (simp add: Resolve_def f split: option.splits bool.splits)
  from 1 2 3 4 5 show ?thesis by blast
qed

lemma Resolve_examples:
  "Resolve brokenChisel [Value Boulder False [500]] =
     Return (Some (Value Stone False [0])) (Some (ProducerFailure [13]))"
  "Validate pointerChisel = None"
  "Resolve pointerChisel [Value Boulder False [500]] =
     Return (Some (Value Stone False [0])) (Some (ProducerFailure [13]))"
  "Resolve chiselStone [Value Boulder False [500]] = Return (Some (Value Stone False [50])) None"
  "Resolve assembleAxe [Value Stone False [50], Value Stick False [100]] =
     Return None (Some TypeMismatch)"
  "Resolve assembleAxe [Value Stick False [100]] = Return None (Some ArityMismatch)"
  by code_simp+

section \<open>Claims\<close>

text \<open>
  C1, as the specification states it, fails: the duplicate test of \<^verbatim>\<open>Add\<close> compares
  \<^verbatim>\<open>reflect.TypeOf\<close> of the two transformations, that is their function types, not
  their identities. Two different transformations from Boulder to Stone have the same
  function type, and the second is rejected as a duplicate.
\<close>

theorem duplicate_identity_counterexample:
  "ResolverFunc chiselStone \<noteq> ResolverFunc grindStone \<and>
   OutputType chiselStone = OutputType grindStone \<and>
   Add [] chiselStone = (productions1, None) \<and>
   Add productions1 grindStone = (productions1, Some DuplicateProducer)"
proof -
  have "ResolverFunc chiselStone \<noteq> ResolverFunc grindStone"
  proof
    assume "ResolverFunc chiselStone = ResolverFunc grindStone"
    then have "Call (ResolverFunc chiselStone) [Value Boulder False [100]] =
               Call (ResolverFunc grindStone) [Value Boulder False [100]]"
      by simp
    then show False by (simp add: chiselStone_def grindStone_def)
  qed
  moreover have "OutputType chiselStone = OutputType grindStone"
    by (simp add: OutputType_def OutputType_opt_def rType_def chiselStone_def grindStone_def)
  moreover have "Add productions1 grindStone = (productions1, Some DuplicateProducer)"
  proof -
    have "Validate grindStone = None" by code_simp
    moreover have "same_signature productions1 grindStone" by code_simp
    ultimately show ?thesis by (simp add: Add_cases)
  qed
  ultimately show ?thesis using add1 by simp
qed

text \<open>
  C1, amended. On a registry as \<^verbatim>\<open>Add\<close> builds it (valid producers under their output
  type, no empty bucket), \<^verbatim>\<open>Add\<close> reports a duplicate exactly when the producer is valid and a
  producer of the same function type (the same ordered input types and the same results)
  is already stored under its output type. Two valid producers with one output type and
  different function types are never rejected as duplicates of one another, so one bucket
  may hold several producers.
\<close>

theorem duplicate_by_function_type:
  assumes "well_keyed pm"
  shows "(snd (Add pm r) = Some DuplicateProducer \<longleftrightarrow>
            Validate r = None \<and> (\<exists>q \<in> set (bucket pm (OutputType r)). rType q = rType r)) \<and>
         (Validate r1 = None \<and> Validate r2 = None \<and>
          OutputType r1 = OutputType r2 \<and> rType r1 \<noteq> rType r2 \<and>
          \<not> same_signature pm r1 \<and> \<not> same_signature pm r2 \<longrightarrow>
            snd (Add pm r1) \<noteq> Some DuplicateProducer \<and>
            snd (Add (fst (Add pm r1)) r2) \<noteq> Some DuplicateProducer)"
proof (intro conjI impI)
  show "snd (Add pm r) = Some DuplicateProducer \<longleftrightarrow>
      Validate r = None \<and> (\<exists>q \<in> set (bucket pm (OutputType r)). rType q = rType r)"
    by (rule Add_duplicate_iff)
next
  from assms have n: "no_empty_bucket pm" by (rule well_keyed_no_empty_bucket)
  assume a: "Validate r1 = None \<and> Validate r2 = None \<and>
    OutputType r1 = OutputType r2 \<and> rType r1 \<noteq> rType r2 \<and>
    \<not> same_signature pm r1 \<and> \<not> same_signature pm r2"
  then show "snd (Add pm r1) \<noteq> Some DuplicateProducer"
    by (simp add: Add_cases_inv [OF n])
  have "\<not> same_signature (fst (Add pm r1)) r2"
    using a by (auto simp: Add_cases_inv [OF n] same_signature_def bucket_inserted list_ex_iff)
  with a show "snd (Add (fst (Add pm r1)) r2) \<noteq> Some DuplicateProducer"
    by (simp add: Add_cases [of _ r2])
qed

text \<open>
  The amended C1 at two producers of Stone with different inputs: both are accepted and
  stored in one bucket.
\<close>

theorem duplicate_by_function_type_witness:
  "well_keyed ([] :: int list ProductionMap) \<and>
   Validate chiselStone = None \<and> Validate findStone = None \<and>
   OutputType chiselStone = OutputType findStone \<and> rType chiselStone \<noteq> rType findStone \<and>
   \<not> same_signature [] chiselStone \<and> \<not> same_signature [] findStone \<and>
   snd (Add [] chiselStone) \<noteq> Some DuplicateProducer \<and>
   snd (Add (fst (Add [] chiselStone)) findStone) \<noteq> Some DuplicateProducer \<and>
   Add productions1 findStone = ([(Stone, [chiselStone, findStone])], None)"
proof -
  have w: "well_keyed ([] :: int list ProductionMap)" by (rule well_keyed_empty)
  have h: "Validate chiselStone = None \<and> Validate findStone = None \<and>
     OutputType chiselStone = OutputType findStone \<and> rType chiselStone \<noteq> rType findStone \<and>
     \<not> same_signature [] chiselStone \<and> \<not> same_signature [] findStone"
    by code_simp
  have two: "Add productions1 findStone = ([(Stone, [chiselStone, findStone])], None)"
  proof -
    have "Validate findStone = None" by code_simp
    moreover have "\<not> same_signature productions1 findStone" by code_simp
    moreover have "IsDAG (inserted productions1 findStone)" by code_simp
    moreover have "inserted productions1 findStone = [(Stone, [chiselStone, findStone])]"
      by (simp add: inserted_def productions1_def bucket_def OutputType_def OutputType_opt_def
        rType_def findStone_def)
    ultimately show ?thesis by (simp add: Add_accepts)
  qed
  from duplicate_by_function_type [OF w, of chiselStone chiselStone findStone] w h two
  show ?thesis by blast
qed

text \<open>
  C3. A rejected \<^verbatim>\<open>Add\<close>, whatever the error, leaves the registry as it was before the
  call. The registry is one as \<^verbatim>\<open>Add\<close> builds it: valid producers, stored under their
  output type, and no empty bucket. That holds for the empty registry and is kept by
  \<^verbatim>\<open>Add\<close> (\<open>well_keyed_Add\<close>).
\<close>

theorem Add_rejection_restores:
  assumes "well_keyed pm" and "snd (Add pm r) \<noteq> None"
  shows "fst (Add pm r) = pm"
  using well_keyed_no_empty_bucket [OF assms(1)] assms(2) by (rule Add_failure_restores)

text \<open>
  C3 on the one-node cycle of the test suite: the entry is removed again and so is its
  bucket.
\<close>

theorem Add_rejection_restores_witness:
  "well_keyed ([] :: int list ProductionMap) \<and>
   snd (Add [] userToUser) = Some CyclicDependency \<and> fst (Add [] userToUser) = []"
proof -
  have h1: "well_keyed ([] :: int list ProductionMap)" by (rule well_keyed_empty)
  have h2: "snd (Add [] userToUser) = Some CyclicDependency" by code_simp
  then have h3: "snd (Add [] userToUser) \<noteq> None" by simp
  from Add_rejection_restores [OF h1 h3] h1 h2 show ?thesis by simp
qed

text \<open>
  C2. For a registry whose buckets are keyed by the output type of their producers (as
  \<^verbatim>\<open>Add\<close> builds them), \<^verbatim>\<open>IsDAG\<close> returns true if and only if the graph with an edge
  from every input type of every producer to its output type is acyclic. The walk passes
  its own extension of the visited list to every branch, so a producer reached on two
  sibling branches is not taken for a cycle.
\<close>

theorem IsDAG_exact:
  assumes "well_keyed pm"
  shows "IsDAG pm \<longleftrightarrow> acyclic (edges pm)"
  using assms by (rule IsDAG_edges)

text \<open>
  C2 on a diamond: D needs B and C, both of which need A, so the walk from the producer of
  D reaches the producer of A on two sibling branches.
\<close>

theorem IsDAG_exact_witness:
  "well_keyed diamond \<and> IsDAG diamond \<and> acyclic (edges diamond)"
proof -
  have h: "well_keyed diamond" by code_simp
  have d: "IsDAG diamond" by code_simp
  from IsDAG_exact [OF h] h d show ?thesis by blast
qed

text \<open>
  C5. In the Boulder/Tree scenario of the test suite, each of the four registrations is
  accepted, and the possibility tree built from the starting types Boulder and Tree has
  2 nodes after the first registration (Boulder to Stone), 5 after the second (Tree to
  Stick), 7 after the third (Stick and Stone to Axe) and 13 after the fourth (Stone and
  Stick to Hammer), in whatever order the map is ranged over at each call of \<^verbatim>\<open>List\<close>.
\<close>

theorem boulder_tree_counts:
  "Add [] chiselStone = (productions1, None) \<and>
   (ranges_over productions1 ord1 \<longrightarrow>
      Count (PossibilityTree ord1 productions1 [Boulder, Tree]) = 2) \<and>
   Add productions1 pickupStick = (productions2, None) \<and>
   (ranges_over productions2 ord2 \<longrightarrow>
      Count (PossibilityTree ord2 productions2 [Boulder, Tree]) = 5) \<and>
   Add productions2 assembleAxe = (productions3, None) \<and>
   (ranges_over productions3 ord3 \<longrightarrow>
      Count (PossibilityTree ord3 productions3 [Boulder, Tree]) = 7) \<and>
   Add productions3 assembleHammer = (productions4, None) \<and>
   (ranges_over productions4 ord4 \<longrightarrow>
      Count (PossibilityTree ord4 productions4 [Boulder, Tree]) = 13)"
proof (intro conjI impI)
  show "Count (PossibilityTree ord1 productions1 [Boulder, Tree]) = 2"
    if "ranges_over productions1 ord1"
    by (simp only: count_any [OF that] count1)
  show "Count (PossibilityTree ord2 productions2 [Boulder, Tree]) = 5"
    if "ranges_over productions2 ord2"
    by (simp only: count_any [OF that] count2)
  show "Count (PossibilityTree ord3 productions3 [Boulder, Tree]) = 7"
    if "ranges_over productions3 ord3"
    by (simp only: count_any [OF that] count3)
  show "Count (PossibilityTree ord4 productions4 [Boulder, Tree]) = 13"
    if "ranges_over productions4 ord4"
    by (simp only: count_any [OF that] count4)
qed (rule add1 add2 add3 add4)+

text \<open>
  C5 with the keys in the order of registration for the first two registries and in an
  order that changes from level to level for the last two.
\<close>

theorem boulder_tree_counts_witness:
  "ranges_over productions1 (in_map_order productions1) \<and>
   Count (PossibilityTree (in_map_order productions1) productions1 [Boulder, Tree]) = 2 \<and>
   ranges_over productions2 (in_map_order productions2) \<and>
   Count (PossibilityTree (in_map_order productions2) productions2 [Boulder, Tree]) = 5 \<and>
   ranges_over productions3 (alternating productions3) \<and>
   Count (PossibilityTree (alternating productions3) productions3 [Boulder, Tree]) = 7 \<and>
   ranges_over productions4 (alternating productions4) \<and>
   Count (PossibilityTree (alternating productions4) productions4 [Boulder, Tree]) = 13"
  using boulder_tree_counts [of "in_map_order productions1" "in_map_order productions2"
      "alternating productions3" "alternating productions4"]
  by (simp add: ranges_over_in_map_order ranges_over_alternating)

text \<open>
  C4. Take the tree built from the types \<open>start\<close>, with the map ranged over in any order
  at each call of \<^verbatim>\<open>List\<close>, any node \<open>n\<close> of it, and let \<open>S\<close> be the types available at
  \<open>n\<close> (\<open>start\<close> at the root, otherwise the types stored in the node followed by the
  output type of its producer). \<^verbatim>\<open>MissingInputs\<close> of a producer for \<open>S\<close> is the list of
  its input types that are not in \<open>S\<close>. A producer is the producer of some child of \<open>n\<close>
  if and only if it is registered, its output type is not in \<open>S\<close> and each of its input
  types is in \<open>S\<close>; the children are these producers, one child for each, in some order;
  and each child stores \<open>S\<close> and has as available types \<open>S\<close> followed by its
  producer's output type.
\<close>

theorem tree_children_exact:
  assumes "all_valid pm" and "ranges_over pm ord"
    and "n \<in> set (nodes (PossibilityTree ord pm start))"
  shows "(\<forall>r. MissingInputs r (available start n) =
              filter (\<lambda>t. t \<notin> set (available start n)) (InputTypes r)) \<and>
         (\<forall>r. (\<exists>c \<in> set (NextSteps n). Resolver c = Some r) \<longleftrightarrow>
            r \<in> set (producers pm) \<and> OutputType r \<notin> set (available start n) \<and>
            set (InputTypes r) \<subseteq> set (available start n)) \<and>
         mset (map Resolver (NextSteps n)) =
           mset (map Some (filter (eligible (available start n)) (producers pm))) \<and>
         (\<forall>c \<in> set (NextSteps n). \<exists>r. Resolver c = Some r \<and> Inputs c = available start n \<and>
            available start c = available start n @ [OutputType r])"
proof -
  let ?S = "available start n"
  from assms(2,3) have e: "expands pm ?S n" by (rule PossibilityTree_nodes_expand)
  then have m: "mset (map Resolver (NextSteps n)) = mset (map Some (filter (eligible ?S) (producers pm)))"
    and i: "\<And>c. c \<in> set (NextSteps n) \<Longrightarrow> Inputs c = ?S"
    by (simp_all add: expands_def list_all_iff)
  have 1: "(\<exists>c \<in> set (NextSteps n). Resolver c = Some r) \<longleftrightarrow>
            r \<in> set (producers pm) \<and> OutputType r \<notin> set ?S \<and> set (InputTypes r) \<subseteq> set ?S" for r
    unfolding children_eligible [OF m] by (simp add: eligible_def)
  have 3: "\<exists>r. Resolver c = Some r \<and> Inputs c = ?S \<and> available start c = ?S @ [OutputType r]"
    if c: "c \<in> set (NextSteps n)" for c
  proof (cases "Resolver c")
    case None
    with c have "\<exists>c \<in> set (NextSteps n). Resolver c = None" by blast
    then have "None \<in> set (map Resolver (NextSteps n))" by force
    then have "None \<in> set_mset (mset (map Resolver (NextSteps n)))" by (simp only: set_mset_mset)
    then have "None \<in> set_mset (mset (map Some (filter (eligible ?S) (producers pm))))"
      by (simp only: m)
    then show ?thesis by auto
  next
    case (Some r)
    then have "available start c = Inputs c @ [OutputType r]" by (simp add: available_def)
    with Some i [OF c] show ?thesis by simp
  qed
  show ?thesis
  proof (intro conjI allI ballI)
    fix r show "MissingInputs r ?S = filter (\<lambda>t. t \<notin> set ?S) (InputTypes r)"
      by (rule MissingInputs_filter)
  next
    fix r show "(\<exists>c \<in> set (NextSteps n). Resolver c = Some r) \<longleftrightarrow>
            r \<in> set (producers pm) \<and> OutputType r \<notin> set ?S \<and> set (InputTypes r) \<subseteq> set ?S"
      by (rule 1)
  next
    show "mset (map Resolver (NextSteps n)) = mset (map Some (filter (eligible ?S) (producers pm)))"
      by (rule m)
  next
    fix c assume "c \<in> set (NextSteps n)"
    then show "\<exists>r. Resolver c = Some r \<and> Inputs c = ?S \<and> available start c = ?S @ [OutputType r]"
      by (rule 3)
  qed
qed

text \<open>
  C4 at the root of the tree of the third test registry, with the keys ranged over in
  reverse at the root: the children apply the producer of Stick and then the producer of
  Stone, one each, and no child applies the producer of Axe, whose two inputs are missing.
\<close>

theorem tree_children_exact_witness:
  "all_valid productions3 \<and> ranges_over productions3 (alternating productions3) \<and>
   mset (map Resolver
     (NextSteps (PossibilityTree (alternating productions3) productions3 [Boulder, Tree]))) =
     {#Some chiselStone, Some pickupStick#} \<and>
   map (\<lambda>c. map_option OutputType (Resolver c))
     (NextSteps (PossibilityTree (alternating productions3) productions3 [Boulder, Tree])) =
     [Some Stick, Some Stone] \<and>
   assembleAxe \<in> set (producers productions3) \<and>
   MissingInputs assembleAxe [Boulder, Tree] = [Stick, Stone] \<and>
   \<not> list_ex (\<lambda>c. Resolver c = Some assembleAxe)
     (NextSteps (PossibilityTree (alternating productions3) productions3 [Boulder, Tree]))"
proof -
  let ?t = "PossibilityTree (alternating productions3) productions3 [Boulder, Tree]"
  have h: "all_valid productions3" by code_simp
  have s: "ranges_over productions3 (alternating productions3)" by (rule ranges_over_alternating)
  have a: "available [Boulder, Tree] ?t = [Boulder, Tree]"
    by (simp add: available_def PossibilityTree_def BuildPossibilityTree_sel)
  have l: "producers productions3 = [chiselStone, pickupStick, assembleAxe]"
    by (simp add: producers_buckets productions3_def bucket_def example_types)
  have e: "eligible [Boulder, Tree] chiselStone" "eligible [Boulder, Tree] pickupStick"
    "\<not> eligible [Boulder, Tree] assembleAxe"
    by code_simp+
  have i: "InputTypes assembleAxe = [Stick, Stone]"
    by (simp add: InputTypes_eq rType_def assembleAxe_def)
  have o: "map (\<lambda>c. map_option OutputType (Resolver c)) (NextSteps ?t) = [Some Stick, Some Stone]"
    by code_simp
  note t = tree_children_exact [OF h s nodes_self, of "[Boulder, Tree]", unfolded a]
  from t have "mset (map Resolver (NextSteps ?t)) =
        mset (map Some (filter (eligible [Boulder, Tree]) (producers productions3)))"
    by blast
  then have 1: "mset (map Resolver (NextSteps ?t)) = {#Some chiselStone, Some pickupStick#}"
    by (simp only: l) (simp add: e)
  from t have "MissingInputs assembleAxe [Boulder, Tree] =
      filter (\<lambda>t. t \<notin> set [Boulder, Tree]) (InputTypes assembleAxe)"
    by blast
  then have 2: "MissingInputs assembleAxe [Boulder, Tree] = [Stick, Stone]"
    by (simp add: i example_types)
  from t have "(\<exists>c \<in> set (NextSteps ?t). Resolver c = Some assembleAxe) \<longleftrightarrow>
      assembleAxe \<in> set (producers productions3) \<and> OutputType assembleAxe \<notin> set [Boulder, Tree] \<and>
      set (InputTypes assembleAxe) \<subseteq> set [Boulder, Tree]"
    by blast
  then have 3: "\<not> list_ex (\<lambda>c. Resolver c = Some assembleAxe) (NextSteps ?t)"
    by (simp add: list_ex_iff i example_types)
  have 4: "assembleAxe \<in> set (producers productions3)" by (simp add: l)
  from h s 1 o 4 2 3 show ?thesis by (intro conjI)
qed



text \<open>
  C10. When the target is among the starting types, no node of the built tree applies a
  producer of the target, whatever the order in which the map was ranged over, and
  \<^verbatim>\<open>PruneFor\<close> reports the target as unreachable and leaves no branch.
\<close>

theorem available_target_unreachable_by_pruning:
  assumes "all_valid pm" and "target \<in> set start"
  shows "\<not> list_ex (applies target) (nodes (PossibilityTree ord pm start)) \<and>
         snd (PruneFor (PossibilityTree ord pm start) target) = Some TargetUnreachable \<and>
         NextSteps (fst (PruneFor (PossibilityTree ord pm start) target)) = []"
  using available_target_unreachable [OF assms(2), of ord pm]
  by (simp add: PruneFor_failure_cuts PruneFor_fails_iff [symmetric])

text \<open>
  C10 on the third test registry with the target Tree, one of the starting types.
\<close>

theorem available_target_unreachable_by_pruning_witness:
  "all_valid productions3 \<and> Tree \<in> set [Boulder, Tree] \<and>
   snd (PruneFor (PossibilityTree (alternating productions3) productions3 [Boulder, Tree]) Tree) =
     Some TargetUnreachable"
proof -
  have h: "all_valid productions3" by code_simp
  have t: "Tree \<in> set [Boulder, Tree]" by simp
  from available_target_unreachable_by_pruning [OF h t, of "alternating productions3"] h t
  show ?thesis by blast
qed

text \<open>
  C9. The node count of the tree built from given starting types depends only on which
  producers the registry holds: two registries that list the same producers, in whatever
  order of keys and within buckets, give trees of equal count, in whatever order each map
  is ranged over at each call of \<^verbatim>\<open>List\<close>; and so do the registries obtained by
  registering the same producers in two different orders.
\<close>

theorem Count_registration_order:
  "(all_valid pm \<and> all_valid pm' \<and> ranges_over pm ord \<and> ranges_over pm' ord' \<and>
    mset (producers pm) = mset (producers pm') \<longrightarrow>
      Count (PossibilityTree ord pm start) = Count (PossibilityTree ord' pm' start)) \<and>
   (AddAll [] rs = (pm1, None) \<and> AddAll [] rs' = (pm2, None) \<and> mset rs = mset rs' \<and>
    ranges_over pm1 ord1 \<and> ranges_over pm2 ord2 \<longrightarrow>
      Count (PossibilityTree ord1 pm1 start) = Count (PossibilityTree ord2 pm2 start))"
proof (intro conjI impI)
  assume a: "all_valid pm \<and> all_valid pm' \<and> ranges_over pm ord \<and> ranges_over pm' ord' \<and>
    mset (producers pm) = mset (producers pm')"
  then have "ranges_over pm ord" "ranges_over pm' ord'" "mset (producers pm) = mset (producers pm')"
    by blast+
  then show "Count (PossibilityTree ord pm start) = Count (PossibilityTree ord' pm' start)"
    by (rule Count_PossibilityTree_contents)
next
  assume a: "AddAll [] rs = (pm1, None) \<and> AddAll [] rs' = (pm2, None) \<and> mset rs = mset rs' \<and>
    ranges_over pm1 ord1 \<and> ranges_over pm2 ord2"
  from a have r1: "AddAll [] rs = (pm1, None)" and r2: "AddAll [] rs' = (pm2, None)"
    and p: "mset rs = mset rs'" and o: "ranges_over pm1 ord1" "ranges_over pm2 ord2" by blast+
  from AddAll_contents [OF well_keyed_empty r1] have "mset (producers pm1) = mset rs"
    by (simp add: producers_empty)
  moreover from AddAll_contents [OF well_keyed_empty r2] have "mset (producers pm2) = mset rs'"
    by (simp add: producers_empty)
  ultimately have "mset (producers pm1) = mset (producers pm2)" using p by simp
  with o show "Count (PossibilityTree ord1 pm1 start) = Count (PossibilityTree ord2 pm2 start)"
    by (rule Count_PossibilityTree_contents)
qed

text \<open>
  C9 on the first two producers of the test, registered in both orders: the registries
  differ, the maps are ranged over in different orders, the counts agree.
\<close>

theorem Count_registration_order_witness:
  "AddAll [] [chiselStone, pickupStick] = (productions2, None) \<and>
   AddAll [] [pickupStick, chiselStone] = (productions2', None) \<and>
   mset [chiselStone, pickupStick] = mset [pickupStick, chiselStone] \<and>
   productions2 \<noteq> productions2' \<and>
   ranges_over productions2 (in_map_order productions2) \<and>
   ranges_over productions2' (alternating productions2') \<and>
   Count (PossibilityTree (in_map_order productions2) productions2 [Boulder, Tree]) =
   Count (PossibilityTree (alternating productions2') productions2' [Boulder, Tree])"
proof -
  have 1: "AddAll [] [chiselStone, pickupStick] = (productions2, None)"
    by (simp add: add1 add2)
  have 2: "AddAll [] [pickupStick, chiselStone] = (productions2', None)"
    by (simp add: add1' add2')
  have 3: "mset [chiselStone, pickupStick] = mset [pickupStick, chiselStone]"
    by (simp add: add_mset_commute)
  have 4: "productions2 \<noteq> productions2'"
    by (simp add: productions2_def productions2'_def example_types)
  note 5 = ranges_over_in_map_order [of productions2]
  note 6 = ranges_over_alternating [of productions2']
  from Count_registration_order [of productions2 productions2' "in_map_order productions2"
      "alternating productions2'" "[Boulder, Tree]"
      "[chiselStone, pickupStick]" productions2 "[pickupStick, chiselStone]" productions2'
      "in_map_order productions2" "alternating productions2'"]
    1 2 3 4 5 6
  show ?thesis by blast
qed

text \<open>
  C7. For a registry of valid producers, and whatever keys each call of \<^verbatim>\<open>List\<close>
  yields and in whatever order, the recursion of the tree builder is well founded on
  every root and every list of starting types: the available types of a child strictly
  extend those of its parent, and the depth of the tree is at most the number of distinct
  registered output types. For a registry as \<^verbatim>\<open>Add\<close> builds it, whose map each call of
  \<^verbatim>\<open>List\<close> ranges over in some order, that number is reached: the tree built from the
  input types that no producer yields has exactly that depth, so the longest possible
  chain equals the number of distinct registered output types.
\<close>

theorem tree_terminates_depth:
  "(all_valid pm \<longrightarrow>
      BuildPossibilityTree_dom (ord, path, pm, root, start) \<and>
      (\<forall>n \<in> set (nodes (PossibilityTree ord pm start)). \<forall>c \<in> set (NextSteps n).
         set (available start n) \<subset> set (available start c)) \<and>
      Depth (PossibilityTree ord pm start) \<le> output_count pm) \<and>
   (registry_inv pm \<and> ranges_over pm ord \<longrightarrow>
      Depth (PossibilityTree ord pm (raw_inputs pm)) = output_count pm)"
proof (intro conjI impI ballI)
  show "BuildPossibilityTree_dom (ord, path, pm, root, start)" by (rule BuildPossibilityTree_total)
next
  fix n c assume "n \<in> set (nodes (PossibilityTree ord pm start))" "c \<in> set (NextSteps n)"
  then show "set (available start n) \<subset> set (available start c)" by (rule child_grows)
next
  have "card (outputs pm - set start) \<le> card (outputs pm)"
    by (intro card_mono finite_outputs) auto
  with Depth_bound [of ord pm start] show "Depth (PossibilityTree ord pm start) \<le> output_count pm"
    by (simp add: output_count_card)
next
  assume "registry_inv pm \<and> ranges_over pm ord"
  then show "Depth (PossibilityTree ord pm (raw_inputs pm)) = output_count pm"
    by (simp add: Depth_attained output_count_card)
qed

text \<open>
  C7 on the fourth test registry, the keys ranged over in an order that changes from level
  to level: four output types, and the tree from Boulder and Tree has depth four.
\<close>

theorem tree_terminates_depth_witness:
  "all_valid productions4 \<and> registry_inv productions4 \<and>
   ranges_over productions4 (alternating productions4) \<and>
   raw_inputs productions4 = [Boulder, Tree] \<and> output_count productions4 = 4 \<and>
   Depth (PossibilityTree (alternating productions4) productions4 [Boulder, Tree]) = 4"
proof -
  have v: "all_valid productions4" by code_simp
  have r: "registry_inv productions4" by code_simp
  have s: "ranges_over productions4 (alternating productions4)" by (rule ranges_over_alternating)
  have i: "raw_inputs productions4 = [Boulder, Tree]" by code_simp
  have c: "output_count productions4 = 4" by code_simp
  from tree_terminates_depth [of productions4 "alternating productions4" "[]"
      "PossibilityNode None [] []" "[Boulder, Tree]"] r s
  have "Depth (PossibilityTree (alternating productions4) productions4 (raw_inputs productions4)) =
      output_count productions4"
    by blast
  then have "Depth (PossibilityTree (alternating productions4) productions4 [Boulder, Tree]) = 4"
    by (simp only: i c)
  with v r s i c show ?thesis by blast
qed

text \<open>
  C8. A producer that \<^verbatim>\<open>Validate\<close> accepts and \<^verbatim>\<open>Resolve\<close> cannot invoke:
  \<^verbatim>\<open>func(Boulder) (Stone, codeErr)\<close>, where \<^verbatim>\<open>codeErr\<close> is an integer type with the
  method \<^verbatim>\<open>Error() string\<close>. On a Boulder the number and the types of the values fit, the
  produced value has the declared output type and the transformation reports the failure
  \<^verbatim>\<open>codeErr(13)\<close>; \<^verbatim>\<open>Resolve\<close> panics in \<^verbatim>\<open>IsNil\<close> instead of returning that failure.
  Likewise a variadic producer that \<^verbatim>\<open>Validate\<close> accepts panics in \<^verbatim>\<open>Call\<close> on the
  only values that pass the checks of number and types.
\<close>

theorem Resolve_panics_on_value_error:
  "Validate codeChisel = None \<and>
   length [Value Boulder False [500 :: int]] = NumIn (rType codeChisel) \<and>
   map Type [Value Boulder False [500 :: int]] = InputTypes codeChisel \<and>
   Call (ResolverFunc codeChisel) [Value Boulder False [500]] =
     [Value Stone False [0], Value codeErr False [13]] \<and>
   OutputType codeChisel = Stone \<and>
   Implements_error codeErr \<and>
   IsNil (Value codeErr False [13 :: int]) = None \<and>
   Resolve codeChisel [Value Boulder False [500]] = Panic \<and>
   Validate variadicChisel = None \<and>
   map Type [Value Boulder False [500 :: int], Value (SliceOf Stick) False []] =
     InputTypes variadicChisel \<and>
   Resolve variadicChisel [Value Boulder False [500], Value (SliceOf Stick) False []] = Panic"
  by code_simp

end
